theory Spec2Isabelle
  imports Main "HOL-Library.Sublist"
begin

section \<open>Dialogue-state-tracking data pipeline of CHAN-DST/CHAN.py\<close>

text \<open>
  A shallow embedding of the data preparation and prediction decoding of
  \<^verbatim>\<open>src/CHAN-DST/CHAN.py\<close>: the row reader, the example builder, the turn encoder
  with its pair truncation, the dialogue assembler, the two padding passes and the
  decoding of predictions. Python lists are HOL lists, Python integers are \<open>int\<close>
  (sizes and positions that can never be negative are \<open>nat\<close>), dictionaries are maps,
  and every exception the modelled code can raise is a value of \<open>py_error\<close> on the
  left of a sum.
\<close>

subsection \<open>Errors and list primitives\<close>

datatype py_error = IndexError | KeyError | ValueError | AssertionError

text \<open>\<^verbatim>\<open>xs.pop()\<close>: removes the last element, raising IndexError on an empty list.\<close>

definition pop :: "'a list \<Rightarrow> py_error + 'a list" where
  "pop xs = (if xs = [] then Inl IndexError else Inr (butlast xs))"

subsection \<open>\<^verbatim>\<open>_truncate_seq_pair\<close> (lines 472-487)\<close>

text \<open>
  The \<^verbatim>\<open>while True\<close> loop mutates both lists in place; the model returns the two
  lists the caller sees afterwards. Each turn of the loop either breaks, pops one token,
  or raises (a pop on an empty list), so the recursion is on the combined length.
\<close>

function truncate_seq_pair :: "'t list \<Rightarrow> 't list \<Rightarrow> int \<Rightarrow> py_error + ('t list \<times> 't list)" where
  "truncate_seq_pair tokens_a tokens_b max_length =
     (if int (length tokens_a) + int (length tokens_b) \<le> max_length then Inr (tokens_a, tokens_b)
      else if length tokens_a > length tokens_b then
        (case pop tokens_a of
           Inl e \<Rightarrow> Inl e
         | Inr tokens_a' \<Rightarrow> truncate_seq_pair tokens_a' tokens_b max_length)
      else
        (case pop tokens_b of
           Inl e \<Rightarrow> Inl e
         | Inr tokens_b' \<Rightarrow> truncate_seq_pair tokens_a tokens_b' max_length))"
  by pat_completeness auto
termination
  by (relation "measure (\<lambda>(a, b, m). length a + length b)")
     (auto simp: pop_def split: if_splits)

text \<open>
  The same loop, recording the pair of lists at the head of every iteration (the last
  entry is the pair at which the loop breaks or raises).
\<close>

function truncate_trace :: "'t list \<Rightarrow> 't list \<Rightarrow> int \<Rightarrow> ('t list \<times> 't list) list" where
  "truncate_trace tokens_a tokens_b max_length =
     (tokens_a, tokens_b) #
     (if int (length tokens_a) + int (length tokens_b) \<le> max_length then []
      else if length tokens_a > length tokens_b then
        (case pop tokens_a of
           Inl e \<Rightarrow> []
         | Inr tokens_a' \<Rightarrow> truncate_trace tokens_a' tokens_b max_length)
      else
        (case pop tokens_b of
           Inl e \<Rightarrow> []
         | Inr tokens_b' \<Rightarrow> truncate_trace tokens_a tokens_b' max_length))"
  by pat_completeness auto
termination
  by (relation "measure (\<lambda>(a, b, m). length a + length b)")
     (auto simp: pop_def split: if_splits)

declare truncate_seq_pair.simps [simp del] truncate_trace.simps [simp del]

text \<open>\<^verbatim>\<open>total_length = len(tokens_a) + len(tokens_b)\<close>.\<close>

definition total_length :: "'t list \<times> 't list \<Rightarrow> int" where
  "total_length p = int (length (fst p)) + int (length (snd p))"

text \<open>
  The specification's truncation rule, in its words: remove one token from the longer
  sequence, and from \<open>text_a\<close> when both are equally long.
\<close>

definition longer_first_tie_a :: "'t list \<times> 't list \<Rightarrow> 't list \<times> 't list" where
  "longer_first_tie_a p =
     (if length (fst p) \<ge> length (snd p) then (butlast (fst p), snd p)
      else (fst p, butlast (snd p)))"

text \<open>The same rule with the tie going to \<open>text_b\<close>.\<close>

definition longer_first_tie_b :: "'t list \<times> 't list \<Rightarrow> 't list \<times> 't list" where
  "longer_first_tie_b p =
     (if length (fst p) > length (snd p) then (butlast (fst p), snd p)
      else (fst p, butlast (snd p)))"

text \<open>
  One removal respects the rule "never from the currently shorter sequence": a list
  that got shorter was not strictly shorter than the other one before the removal.
\<close>

definition no_shorter_removed :: "'t list \<times> 't list \<Rightarrow> 't list \<times> 't list \<Rightarrow> bool" where
  "no_shorter_removed p q \<longleftrightarrow>
     (length (fst q) < length (fst p) \<longrightarrow> \<not> length (fst p) < length (snd p)) \<and>
     (length (snd q) < length (snd p) \<longrightarrow> \<not> length (snd p) < length (fst p))"

subsection \<open>\<^verbatim>\<open>DataProcessor._read_tsv\<close> (lines 91-103)\<close>

text \<open>
  The file and \<^verbatim>\<open>csv.reader\<close> are outside the model: the function takes the rows the
  reader yields, each a list of fields. \<^verbatim>\<open>line[0][0]\<close> indexes the first field, which
  raises IndexError when that field is the empty string. The accumulator \<open>lines\<close> is
  the list the loop appends to.
\<close>

fun read_tsv_loop :: "string list list \<Rightarrow> string list list \<Rightarrow> py_error + string list list" where
  "read_tsv_loop [] lines = Inr lines"
| "read_tsv_loop (line # reader) lines =
     (if length line > 0 then
        (case line ! 0 of
           [] \<Rightarrow> Inl IndexError
         | c # _ \<Rightarrow>
             if c = CHR ''#'' then read_tsv_loop reader lines
             else read_tsv_loop reader (lines @ [line]))
      else read_tsv_loop reader (lines @ [line]))"

definition read_tsv :: "string list list \<Rightarrow> py_error + string list list" where
  "read_tsv reader = read_tsv_loop reader []"

subsection \<open>\<^verbatim>\<open>Processor._create_examples\<close> (lines 139-170)\<close>

record InputExample =
  guid :: string
  text_a :: string
  text_b :: "string option"
  label :: "string list"
  update :: "string list"

text \<open>
  A row is indexed at \<open>0\<close>, \<open>1\<close>, \<open>2\<close>, \<open>3\<close>, at \<open>4 + idx\<close> and at
  \<open>4 + nslots + idx\<close> for \<open>idx < nslots\<close>; each of these raises IndexError on a
  row that is too short, and nothing else can fail, so the body raises IndexError
  exactly on a row of fewer than \<open>4 + 2 * nslots\<close> fields. The loop variables
  \<open>prev_dialogue_index\<close>, \<open>text_a\<close> and \<open>text_b\<close> survive from one iteration to
  the next (the two texts are unbound before the first row, where they are not read);
  \<open>accumulate_texts\<close> is the \<^verbatim>\<open>if accumulation\<close> block of lines 149-160, giving
  their new values.
\<close>

definition accumulate_texts ::
  "bool \<Rightarrow> string list \<Rightarrow> string option \<Rightarrow> string \<Rightarrow> string \<Rightarrow> string \<times> string \<times> string option" where
  "accumulate_texts accumulation line prev_dialogue_index ta tb =
     (if accumulation then
        (if prev_dialogue_index = None \<or> prev_dialogue_index \<noteq> Some (line ! 0)
         then (line ! 2, line ! 3, Some (line ! 0))
         else (line ! 2 @ '' # '' @ ta, line ! 3 @ '' # '' @ tb, prev_dialogue_index))
      else (line ! 2, line ! 3, prev_dialogue_index))"

fun create_examples_loop ::
  "nat \<Rightarrow> string \<Rightarrow> bool \<Rightarrow> string list list \<Rightarrow> string option \<Rightarrow> string \<Rightarrow> string \<Rightarrow>
   InputExample list \<Rightarrow> py_error + InputExample list" where
  "create_examples_loop nslots set_type accumulation [] prev_dialogue_index ta tb examples =
     Inr examples"
| "create_examples_loop nslots set_type accumulation (line # lines) prev_dialogue_index ta tb examples =
     (if length line < 4 + 2 * nslots then Inl IndexError
      else
        (case accumulate_texts accumulation line prev_dialogue_index ta tb of
           (ta', tb', prev') \<Rightarrow>
             create_examples_loop nslots set_type accumulation lines prev' ta' tb'
               (examples @
                [\<lparr>guid = set_type @ ''-'' @ line ! 0 @ ''-'' @ line ! 1,
                  text_a = ta', text_b = Some tb',
                  label = map (\<lambda>idx. line ! (4 + idx)) [0..<nslots],
                  update = map (\<lambda>idx. line ! (4 + nslots + idx)) [0..<nslots]\<rparr>])))"

definition create_examples :: "nat \<Rightarrow> string list list \<Rightarrow> string \<Rightarrow> bool \<Rightarrow> py_error + InputExample list" where
  "create_examples nslots lines set_type accumulation =
     create_examples_loop nslots set_type accumulation lines None [] [] []"

text \<open>
  What the specification says of one example under accumulation: the texts of row
  \<open>i\<close> are the row's own utterance and response, followed, when the previous row
  has the same dialogue id, by the separator and the previous example's texts.
\<close>

definition accumulated :: "string list list \<Rightarrow> InputExample list \<Rightarrow> nat \<Rightarrow> bool" where
  "accumulated lines examples i \<longleftrightarrow>
     (if 0 < i \<and> lines ! i ! 0 = lines ! (i - 1) ! 0
      then text_a (examples ! i) = lines ! i ! 2 @ '' # '' @ text_a (examples ! (i - 1)) \<and>
           text_b (examples ! i) =
             Some (lines ! i ! 3 @ '' # '' @ the (text_b (examples ! (i - 1))))
      else text_a (examples ! i) = lines ! i ! 2 \<and> text_b (examples ! i) = Some (lines ! i ! 3))"

subsection \<open>Strings: \<^verbatim>\<open>split\<close>, \<^verbatim>\<open>join\<close>, \<^verbatim>\<open>int\<close>\<close>

text \<open>\<^verbatim>\<open>s.split(c)\<close> for a one-character separator: never the empty list.\<close>

fun split_sep :: "char \<Rightarrow> string \<Rightarrow> string list" where
  "split_sep c [] = [[]]"
| "split_sep c (x # xs) =
     (if x = c then [] # split_sep c xs
      else (case split_sep c xs of
              [] \<Rightarrow> [[x]]
            | w # ws \<Rightarrow> (x # w) # ws))"

text \<open>\<^verbatim>\<open>sep.join(xs)\<close>.\<close>

fun join :: "string \<Rightarrow> string list \<Rightarrow> string" where
  "join sep [] = []"
| "join sep [x] = x"
| "join sep (x # y # ys) = x @ sep @ join sep (y # ys)"

text \<open>
  \<^verbatim>\<open>int(s)\<close> on the strings the data files hold: an optional sign and one or more
  ASCII digits. Python's \<^verbatim>\<open>int\<close> also accepts surrounding white space, underscores
  between digits and non-ASCII digits; the model answers ValueError on those, so
  nothing is claimed here about a failure of \<open>py_int\<close>.
\<close>

definition digit_val :: "char \<Rightarrow> nat option" where
  "digit_val c =
     (let n = (of_char c :: nat) in if 48 \<le> n \<and> n \<le> 57 then Some (n - 48) else None)"

fun digits_val :: "nat \<Rightarrow> string \<Rightarrow> nat option" where
  "digits_val acc [] = Some acc"
| "digits_val acc (c # cs) =
     (case digit_val c of
        None \<Rightarrow> None
      | Some d \<Rightarrow> digits_val (10 * acc + d) cs)"

definition py_int :: "string \<Rightarrow> py_error + int" where
  "py_int s =
     (case s of
        [] \<Rightarrow> Inl ValueError
      | c # cs \<Rightarrow>
          if c = CHR ''-'' \<or> c = CHR ''+'' then
            (if cs = [] then Inl ValueError
             else (case digits_val 0 cs of
                     None \<Rightarrow> Inl ValueError
                   | Some n \<Rightarrow> Inr (if c = CHR ''-'' then - int n else int n)))
          else (case digits_val 0 s of
                  None \<Rightarrow> Inl ValueError
                | Some n \<Rightarrow> Inr (int n)))"

text \<open>\<^verbatim>\<open>list(map(int, xs))\<close>: the first string that does not parse raises.\<close>

fun map_int :: "string list \<Rightarrow> py_error + int list" where
  "map_int [] = Inr []"
| "map_int (s # ss) =
     (case py_int s of
        Inl e \<Rightarrow> Inl e
      | Inr v \<Rightarrow> (case map_int ss of Inl e \<Rightarrow> Inl e | Inr vs \<Rightarrow> Inr (v # vs)))"

text \<open>\<^verbatim>\<open>xs[:k]\<close>: a negative bound counts from the end.\<close>

definition py_slice_to :: "'a list \<Rightarrow> int \<Rightarrow> 'a list" where
  "py_slice_to xs k = (if 0 \<le> k then take (nat k) xs else take (length xs - nat (- k)) xs)"

subsection \<open>The turn encoder: \<^verbatim>\<open>SUMBTDataset.__init__\<close>, lines 196-221\<close>

text \<open>
  The tokenizer is an external collaborator; the model takes its two functions as
  parameters.
\<close>

record tokenizer =
  tokenize :: "string \<Rightarrow> string list"
  convert_tokens_to_ids :: "string list \<Rightarrow> int list"

text \<open>\<^verbatim>\<open>[x if x != "#" else "[SEP]" for x in ...]\<close>.\<close>

definition sep_marker :: "string list \<Rightarrow> string list" where
  "sep_marker toks = map (\<lambda>x. if x \<noteq> ''#'' then x else ''[SEP]'') toks"

text \<open>The truth value of \<^verbatim>\<open>example.text_b\<close>: neither None nor the empty string.\<close>

definition truthy :: "'a list option \<Rightarrow> bool" where
  "truthy x = (case x of None \<Rightarrow> False | Some s \<Rightarrow> s \<noteq> [])"

text \<open>
  Lines 196-212: both token lists after the replacement of the marker and the
  truncation; \<open>tokens_b\<close> stays None when \<open>text_b\<close> is absent or empty.
\<close>

definition truncated_tokens ::
  "tokenizer \<Rightarrow> int \<Rightarrow> InputExample \<Rightarrow> py_error + (string list \<times> string list option)" where
  "truncated_tokens tk max_seq_length example =
     (let tokens_a = sep_marker (tokenize tk (text_a example)) in
      if truthy (text_b example) then
        (case truncate_seq_pair tokens_a (sep_marker (tokenize tk (the (text_b example))))
                (max_seq_length - 3) of
           Inl e \<Rightarrow> Inl e
         | Inr (tokens_a', tokens_b') \<Rightarrow> Inr (tokens_a', Some tokens_b'))
      else if int (length tokens_a) > max_seq_length - 2
        then Inr (py_slice_to tokens_a (max_seq_length - 2), None)
        else Inr (tokens_a, None))"

text \<open>Lines 214-219: the token sequence and \<open>input_len\<close>.\<close>

definition assemble_tokens :: "string list \<Rightarrow> string list option \<Rightarrow> string list \<times> int list" where
  "assemble_tokens tokens_a tokens_b =
     (let tokens = [''[CLS]''] @ tokens_a @ [''[SEP]''];
          input_len = [int (length tokens), 0]
      in if truthy tokens_b
         then (tokens @ the tokens_b @ [''[SEP]''],
               input_len[1 := int (length (the tokens_b)) + 1])
         else (tokens, input_len))"

definition turn_tokens ::
  "tokenizer \<Rightarrow> int \<Rightarrow> InputExample \<Rightarrow> py_error + (string list \<times> int list)" where
  "turn_tokens tk max_seq_length example =
     (case truncated_tokens tk max_seq_length example of
        Inl e \<Rightarrow> Inl e
      | Inr (tokens_a, tokens_b) \<Rightarrow> Inr (assemble_tokens tokens_a tokens_b))"

text \<open>
  A stand-in tokenizer for concrete evaluations: tokens are the maximal runs of
  non-blank characters, and the id of a token is its length.
\<close>

fun words :: "string \<Rightarrow> string \<Rightarrow> string list" where
  "words w [] = (if w = [] then [] else [w])"
| "words w (c # cs) =
     (if c = CHR '' '' then (if w = [] then words [] cs else w # words [] cs)
      else words (w @ [c]) cs)"

definition blank_tokenizer :: tokenizer where
  "blank_tokenizer =
     \<lparr>tokenize = words [], convert_tokens_to_ids = map (\<lambda>t. int (length t))\<rparr>"

subsection \<open>The dialogue assembler: \<^verbatim>\<open>SUMBTDataset.__init__\<close>, lines 180-256\<close>

record InputFeatures =
  input_ids :: "int list"
  input_len :: "int list"
  label_id :: "int list"
  update_ids :: "int list"
  feature_guid :: string

text \<open>
  \<^verbatim>\<open>{label: i for i, label in enumerate(labels)}\<close>: a later duplicate overwrites an
  earlier one.
\<close>

definition label_map_of :: "string list \<Rightarrow> (string \<rightharpoonup> int)" where
  "label_map_of labels = fold (\<lambda>(i, l) m. m(l \<mapsto> int i)) (enumerate 0 labels) Map.empty"

text \<open>
  Lines 228-232: \<^verbatim>\<open>label_map[i]\<close> raises IndexError beyond the last slot and
  \<^verbatim>\<open>label_map[i][label]\<close> raises KeyError on an unknown value.
\<close>

fun label_ids_of :: "(string \<rightharpoonup> int) list \<Rightarrow> nat \<Rightarrow> string list \<Rightarrow> py_error + int list" where
  "label_ids_of label_map i [] = Inr []"
| "label_ids_of label_map i (l # ls) =
     (if length label_map \<le> i then Inl IndexError
      else (case (label_map ! i) l of
              None \<Rightarrow> Inl KeyError
            | Some k \<Rightarrow>
                (case label_ids_of label_map (Suc i) ls of
                   Inl e \<Rightarrow> Inl e
                 | Inr ks \<Rightarrow> Inr (k # ks))))"

text \<open>The pieces of a guid: lines 234-236.\<close>

definition turn_idx_of :: "string \<Rightarrow> py_error + int" where
  "turn_idx_of g = py_int (last (split_sep CHR ''-'' g))"

definition dialogue_idx_of :: "string \<Rightarrow> string" where
  "dialogue_idx_of g = join ''-'' (butlast (split_sep CHR ''-'' g))"

definition guid_of :: "string \<Rightarrow> string" where
  "guid_of g = join ''-'' (tl (butlast (split_sep CHR ''-'' g)))"

text \<open>Lines 188-191: the largest turn index of the data set.\<close>

fun max_turn_loop :: "InputExample list \<Rightarrow> int \<Rightarrow> py_error + int" where
  "max_turn_loop [] max_turn = Inr max_turn"
| "max_turn_loop (example # examples) max_turn =
     (case turn_idx_of (guid example) of
        Inl e \<Rightarrow> Inl e
      | Inr t \<Rightarrow> max_turn_loop examples (if max_turn < t then t else max_turn))"

text \<open>
  Lines 195-236 for one example, up to the decision whether to keep it: the ids of the
  tokens, \<open>input_len\<close>, the label ids and the turn index.
\<close>

definition encode_example ::
  "tokenizer \<Rightarrow> (string \<rightharpoonup> int) list \<Rightarrow> int \<Rightarrow> InputExample \<Rightarrow>
   py_error + (int list \<times> int list \<times> int list \<times> int)" where
  "encode_example tk label_map max_seq_length example =
     (case turn_tokens tk max_seq_length example of
        Inl e \<Rightarrow> Inl e
      | Inr (tokens, input_len') \<Rightarrow>
          (case label_ids_of label_map 0 (label example) of
             Inl e \<Rightarrow> Inl e
           | Inr label_id' \<Rightarrow>
               (case turn_idx_of (guid example) of
                  Inl e \<Rightarrow> Inl e
                | Inr curr_turn_idx \<Rightarrow>
                    Inr (convert_tokens_to_ids tk tokens, input_len', label_id', curr_turn_idx))))"

text \<open>
  The two conditions of the main loop: line 238 (the example opens another dialogue)
  and line 242 (the example is kept). \<open>prev\<close> holds \<open>prev_dialogue_idx\<close> and
  \<open>prev_turn_idx\<close>, which are assigned together (None before the first example).
\<close>

definition new_dialogue :: "(string \<times> int) option \<Rightarrow> string \<Rightarrow> bool" where
  "new_dialogue prev curr_dialogue_idx \<longleftrightarrow> prev \<noteq> None \<and> fst (the prev) \<noteq> curr_dialogue_idx"

definition keep_turn :: "(string \<times> int) option \<Rightarrow> int \<Rightarrow> bool" where
  "keep_turn prev max_turn_length \<longleftrightarrow> prev = None \<or> snd (the prev) < max_turn_length"

text \<open>
  The main loop; \<open>all_features\<close> and \<open>features\<close> are the two lists it appends to.
  The update flags are parsed only for an example that is kept.
\<close>

fun features_loop ::
  "tokenizer \<Rightarrow> (string \<rightharpoonup> int) list \<Rightarrow> int \<Rightarrow> int \<Rightarrow> InputExample list \<Rightarrow>
   InputFeatures list list \<Rightarrow> InputFeatures list \<Rightarrow> (string \<times> int) option \<Rightarrow>
   py_error + InputFeatures list list" where
  "features_loop tk label_map max_seq_length max_turn_length [] all_features features prev =
     Inr (all_features @ [features])"
| "features_loop tk label_map max_seq_length max_turn_length (example # examples)
     all_features features prev =
     (case encode_example tk label_map max_seq_length example of
        Inl e \<Rightarrow> Inl e
      | Inr (input_ids', input_len', label_id', curr_turn_idx) \<Rightarrow>
          let curr_dialogue_idx = dialogue_idx_of (guid example);
              all_features' = (if new_dialogue prev curr_dialogue_idx
                               then all_features @ [features] else all_features);
              features' = (if new_dialogue prev curr_dialogue_idx then [] else features)
          in if keep_turn prev max_turn_length then
               (case map_int (update example) of
                  Inl e \<Rightarrow> Inl e
                | Inr update' \<Rightarrow>
                    features_loop tk label_map max_seq_length max_turn_length examples
                      all_features'
                      (features' @
                       [\<lparr>input_ids = input_ids', input_len = input_len',
                         label_id = label_id', update_ids = update',
                         feature_guid = guid_of (guid example)\<rparr>])
                      (Some (curr_dialogue_idx, curr_turn_idx)))
             else
               features_loop tk label_map max_seq_length max_turn_length examples
                 all_features' features' (Some (curr_dialogue_idx, curr_turn_idx)))"

definition SUMBTDataset_init ::
  "InputExample list \<Rightarrow> string list list \<Rightarrow> tokenizer \<Rightarrow> int \<Rightarrow> int \<Rightarrow>
   py_error + InputFeatures list list" where
  "SUMBTDataset_init examples label_list tk max_seq_length max_turn_length =
     (let label_map = map label_map_of label_list in
      case max_turn_loop examples 0 of
        Inl e \<Rightarrow> Inl e
      | Inr max_turn \<Rightarrow>
          features_loop tk label_map max_seq_length (min (max_turn + 1) max_turn_length)
            examples [] [] None)"

text \<open>
  The feature record the loop builds from one example when it keeps it (encoding,
  then the update flags).
\<close>

definition feature_of ::
  "tokenizer \<Rightarrow> (string \<rightharpoonup> int) list \<Rightarrow> int \<Rightarrow> InputExample \<Rightarrow> py_error + InputFeatures" where
  "feature_of tk label_map max_seq_length example =
     (case encode_example tk label_map max_seq_length example of
        Inl e \<Rightarrow> Inl e
      | Inr (input_ids', input_len', label_id', curr_turn_idx) \<Rightarrow>
          (case map_int (update example) of
             Inl e \<Rightarrow> Inl e
           | Inr update' \<Rightarrow>
               Inr \<lparr>input_ids = input_ids', input_len = input_len',
                    label_id = label_id', update_ids = update',
                    feature_guid = guid_of (guid example)\<rparr>))"

subsection \<open>Tensors\<close>

text \<open>
  A two-dimensional \<^verbatim>\<open>LongTensor\<close> is the list of its rows and a three-dimensional one
  the list of its matrices. \<^verbatim>\<open>torch.tensor\<close> refuses rows of different lengths
  (ValueError); of an empty list it makes a one-dimensional tensor, whose
  \<^verbatim>\<open>size(1)\<close> raises IndexError. \<^verbatim>\<open>max\<close> of an empty list raises ValueError.
  The elements are 64-bit in the source; they are token ids, lengths, label indices
  and update flags, far from the bounds, and the model takes them as \<open>int\<close>.
\<close>

type_synonym tensor2 = "int list list"

definition torch_tensor :: "int list list \<Rightarrow> py_error + tensor2" where
  "torch_tensor rows =
     (if \<forall>r \<in> set rows. length r = length (hd rows) then Inr rows else Inl ValueError)"

definition size1 :: "tensor2 \<Rightarrow> py_error + nat" where
  "size1 t = (case t of [] \<Rightarrow> Inl IndexError | r # _ \<Rightarrow> Inr (length r))"

fun py_max :: "'a::linorder list \<Rightarrow> py_error + 'a" where
  "py_max [] = Inl ValueError"
| "py_max (x # xs) = Inr (fold max xs x)"

text \<open>A well-formed matrix: at least one row, all rows of one length.\<close>

definition is_tensor2 :: "tensor2 \<Rightarrow> bool" where
  "is_tensor2 t \<longleftrightarrow> t \<noteq> [] \<and> (\<forall>r \<in> set t. length r = length (hd t))"

subsection \<open>\<^verbatim>\<open>SUMBTDataset.__getitem__\<close> (lines 261-277)\<close>

text \<open>
  The five components of the tuple returned: the token ids padded with \<open>0\<close> to the
  longest turn of the dialogue, the lengths, the label ids, the update flags, the
  guids. The data loader calls it with indices from \<open>0\<close> up to the number of
  dialogues, so the index is a \<open>nat\<close>.
\<close>

type_synonym item = "tensor2 \<times> tensor2 \<times> tensor2 \<times> tensor2 \<times> string list"

definition getitem :: "InputFeatures list list \<Rightarrow> nat \<Rightarrow> py_error + item" where
  "getitem all_features index =
     (if length all_features \<le> index then Inl IndexError
      else
        let fs = all_features ! index;
            ids = map input_ids fs
        in case py_max (map length ids) of
             Inl e \<Rightarrow> Inl e
           | Inr max_len \<Rightarrow>
               (case torch_tensor (map (\<lambda>i. i @ replicate (max_len - length i) 0) ids) of
                  Inl e \<Rightarrow> Inl e
                | Inr input_ids_t \<Rightarrow>
               (case torch_tensor (map input_len fs) of
                  Inl e \<Rightarrow> Inl e
                | Inr input_len_t \<Rightarrow>
               (case torch_tensor (map label_id fs) of
                  Inl e \<Rightarrow> Inl e
                | Inr label_ids_t \<Rightarrow>
               (case torch_tensor (map update_ids fs) of
                  Inl e \<Rightarrow> Inl e
                | Inr update_t \<Rightarrow>
                    Inr (input_ids_t, input_len_t, label_ids_t, update_t,
                         map feature_guid fs))))))"

subsection \<open>\<^verbatim>\<open>collate_fn\<close> (lines 280-309)\<close>

text \<open>\<^verbatim>\<open>[i.size(1) for i in seq]\<close>.\<close>

fun sizes1 :: "tensor2 list \<Rightarrow> py_error + nat list" where
  "sizes1 [] = Inr []"
| "sizes1 (t # ts) =
     (case size1 t of
        Inl e \<Rightarrow> Inl e
      | Inr d \<Rightarrow> (case sizes1 ts of Inl e \<Rightarrow> Inl e | Inr ds \<Rightarrow> Inr (d # ds)))"

text \<open>
  One matrix of \<^verbatim>\<open>result\<close>: filled with \<open>pad_token\<close>, then overwritten by the slice
  assignment \<^verbatim>\<open>result[i, :seq[i].size(0), :seq[i].size(1)] = seq[i]\<close>.
\<close>

definition padded :: "nat \<Rightarrow> nat \<Rightarrow> int \<Rightarrow> tensor2 \<Rightarrow> int list list" where
  "padded max_len max_dim pad_token s =
     map (\<lambda>t. map (\<lambda>l. if t < length s \<and> l < length (hd s) then s ! t ! l else pad_token)
                  [0..<max_dim])
         [0..<max_len]"

definition padding :: "tensor2 list \<Rightarrow> int \<Rightarrow> py_error + int list list list" where
  "padding seq pad_token =
     (case py_max (map length seq) of
        Inl e \<Rightarrow> Inl e
      | Inr max_len \<Rightarrow>
          (case sizes1 seq of
             Inl e \<Rightarrow> Inl e
           | Inr dims \<Rightarrow>
               (case py_max dims of
                  Inl e \<Rightarrow> Inl e
                | Inr max_dim \<Rightarrow> Inr (map (padded max_len max_dim pad_token) seq))))"

text \<open>
  The batch: four padded tensors, the guids and the turn counts. The final
  \<^verbatim>\<open>.float()\<close> of the update tensor changes its element type and no value (the
  sentinel \<open>-1\<close> stays \<open>-1\<close>); the model keeps the integers.
\<close>

type_synonym batch =
  "int list list list \<times> int list list list \<times> int list list list \<times> int list list list \<times>
   string list list \<times> nat list"

definition collate_fn :: "item list \<Rightarrow> py_error + batch" where
  "collate_fn items =
     (let input_ids_list = map (\<lambda>(a, b, c, d, g). a) items;
          input_len_list = map (\<lambda>(a, b, c, d, g). b) items;
          label_ids_list = map (\<lambda>(a, b, c, d, g). c) items;
          update_list = map (\<lambda>(a, b, c, d, g). d) items;
          guids_list = map (\<lambda>(a, b, c, d, g). g) items;
          num_turns_list = map (\<lambda>(a, b, c, d, g). length a) items
      in case padding input_ids_list 0 of
           Inl e \<Rightarrow> Inl e
         | Inr input_ids' \<Rightarrow>
        (case padding input_len_list 0 of
           Inl e \<Rightarrow> Inl e
         | Inr input_len' \<Rightarrow>
        (case padding label_ids_list (- 1) of
           Inl e \<Rightarrow> Inl e
         | Inr label_ids' \<Rightarrow>
        (case padding update_list (- 1) of
           Inl e \<Rightarrow> Inl e
         | Inr update' \<Rightarrow>
             Inr (input_ids', input_len', label_ids', update', guids_list, num_turns_list)))))"

text \<open>
  Line 1023, \<^verbatim>\<open>(label_ids[:, :, 0].view(-1) != -1).sum().item()\<close>: slot \<open>0\<close> of every
  turn of every dialogue, and the number of entries that differ from \<open>-1\<close>. Indexing
  slot \<open>0\<close> raises IndexError when the tensor has no slot.
\<close>

definition nb_eval_ex :: "int list list list \<Rightarrow> py_error + nat" where
  "nb_eval_ex label_ids =
     (let turns = concat label_ids in
      if \<exists>r \<in> set turns. r = [] then Inl IndexError
      else Inr (length (filter (\<lambda>v. v \<noteq> - 1) (map hd turns))))"


subsection \<open>Decoding predictions: \<^verbatim>\<open>main\<close>, lines 922-935\<close>

text \<open>\<^verbatim>\<open>str(n)\<close> for a non-negative integer, as the f-string writes the turn number.\<close>

fun str_nat :: "nat \<Rightarrow> string" where
  "str_nat n =
     (if n < 10 then [''0123456789'' ! n]
      else str_nat (n div 10) @ [''0123456789'' ! (n mod 10)])"

declare str_nat.simps [simp del]

text \<open>\<^verbatim>\<open>xs[p]\<close> for a Python integer: a negative index counts from the end.\<close>

definition py_index :: "'a list \<Rightarrow> int \<Rightarrow> py_error + 'a" where
  "py_index xs p =
     (let n = int (length xs); j = (if p < 0 then n + p else p)
      in if 0 \<le> j \<and> j < n then Inr (xs ! nat j) else Inl IndexError)"

text \<open>
  The inner loop over \<^verbatim>\<open>zip(slot_meta, pred)\<close>: \<^verbatim>\<open>ontology[s]\<close> raises KeyError on an
  unknown slot and \<^verbatim>\<open>ontology[s][p]\<close> IndexError on an id out of range; the strings
  are appended in the order of the slots.
\<close>

fun decode_state :: "(string \<rightharpoonup> string list) \<Rightarrow> (string \<times> int) list \<Rightarrow> py_error + string list" where
  "decode_state ontology [] = Inr []"
| "decode_state ontology ((s, p) # rest) =
     (case ontology s of
        None \<Rightarrow> Inl KeyError
      | Some vals \<Rightarrow>
          (case py_index vals p of
             Inl e \<Rightarrow> Inl e
           | Inr v \<Rightarrow>
               (case decode_state ontology rest of
                  Inl e \<Rightarrow> Inl e
                | Inr state \<Rightarrow> Inr (if v \<noteq> ''none'' then (s @ ''-'' @ v) # state else state))))"

text \<open>The loop over \<^verbatim>\<open>pred_slots[:num_turn]\<close>.\<close>

fun decode_states ::
  "(string \<rightharpoonup> string list) \<Rightarrow> string list \<Rightarrow> int list list \<Rightarrow> py_error + string list list" where
  "decode_states ontology slot_meta [] = Inr []"
| "decode_states ontology slot_meta (pred # preds) =
     (case decode_state ontology (zip slot_meta pred) of
        Inl e \<Rightarrow> Inl e
      | Inr state \<Rightarrow>
          (case decode_states ontology slot_meta preds of
             Inl e \<Rightarrow> Inl e
           | Inr states \<Rightarrow> Inr (state # states)))"

text \<open>\<^verbatim>\<open>for tid, state in enumerate(states): predictions[f"{guid}-{tid}"] = state\<close>.\<close>

fun store_states ::
  "string \<Rightarrow> nat \<Rightarrow> string list list \<Rightarrow> (string \<rightharpoonup> string list) \<Rightarrow> (string \<rightharpoonup> string list)" where
  "store_states guid' tid [] predictions = predictions"
| "store_states guid' tid (state # states) predictions =
     store_states guid' (Suc tid) states (predictions(guid' @ ''-'' @ str_nat tid \<mapsto> state))"

text \<open>
  The loop over the dialogues of one batch; \<open>pred_slot\<close> is the tracker's output as
  nested lists. \<^verbatim>\<open>guids[i][0]\<close>, \<^verbatim>\<open>pred_slot.tolist()[i]\<close> and \<^verbatim>\<open>num_turns[i]\<close> raise
  IndexError out of range.
\<close>

fun predict_loop ::
  "(string \<rightharpoonup> string list) \<Rightarrow> string list \<Rightarrow> string list list \<Rightarrow> int list list list \<Rightarrow>
   nat list \<Rightarrow> nat list \<Rightarrow> (string \<rightharpoonup> string list) \<Rightarrow> py_error + (string \<rightharpoonup> string list)" where
  "predict_loop ontology slot_meta guids pred_slot num_turns [] predictions = Inr predictions"
| "predict_loop ontology slot_meta guids pred_slot num_turns (i # rest) predictions =
     (if length guids \<le> i then Inl IndexError
      else (case guids ! i of
              [] \<Rightarrow> Inl IndexError
            | guid' # _ \<Rightarrow>
                if length pred_slot \<le> i then Inl IndexError
                else if length num_turns \<le> i then Inl IndexError
                else (case decode_states ontology slot_meta
                             (take (num_turns ! i) (pred_slot ! i)) of
                        Inl e \<Rightarrow> Inl e
                      | Inr states \<Rightarrow>
                          predict_loop ontology slot_meta guids pred_slot num_turns rest
                            (store_states guid' 0 states predictions))))"

definition predict_batch ::
  "(string \<rightharpoonup> string list) \<Rightarrow> string list \<Rightarrow> string list list \<Rightarrow> int list list list \<Rightarrow>
   nat list \<Rightarrow> nat \<Rightarrow> (string \<rightharpoonup> string list) \<Rightarrow> py_error + (string \<rightharpoonup> string list)" where
  "predict_batch ontology slot_meta guids pred_slot num_turns batch_size predictions =
     predict_loop ontology slot_meta guids pred_slot num_turns [0..<batch_size] predictions"

text \<open>
  What the specification says of one entry: the slot-value strings, in slot order, of
  the slots whose decoded value is not \<open>''none''\<close>.
\<close>

definition decoded_value :: "(string \<rightharpoonup> string list) \<Rightarrow> string \<Rightarrow> int \<Rightarrow> string" where
  "decoded_value ontology s p =
     (let vals = the (ontology s)
      in vals ! nat (if p < 0 then int (length vals) + p else p))"

definition decoded_state :: "(string \<rightharpoonup> string list) \<Rightarrow> string list \<Rightarrow> int list \<Rightarrow> string list" where
  "decoded_state ontology slot_meta pred =
     map (\<lambda>(s, v). s @ ''-'' @ v)
       (filter (\<lambda>(s, v). v \<noteq> ''none'')
          (map (\<lambda>(s, p). (s, decoded_value ontology s p)) (zip slot_meta pred)))"

text \<open>Every slot of a turn's prediction is in the ontology, with an id in range.\<close>

definition decodable :: "(string \<rightharpoonup> string list) \<Rightarrow> string list \<Rightarrow> int list \<Rightarrow> bool" where
  "decodable ontology slot_meta pred \<longleftrightarrow>
     (\<forall>(s, p) \<in> set (zip slot_meta pred).
        case ontology s of
          None \<Rightarrow> False
        | Some vals \<Rightarrow> - int (length vals) \<le> p \<and> p < int (length vals))"

text \<open>The keys one batch writes: one per dialogue and decoded turn.\<close>

definition prediction_keys :: "string list list \<Rightarrow> int list list list \<Rightarrow> nat list \<Rightarrow> nat \<Rightarrow> string set" where
  "prediction_keys guids pred_slot num_turns batch_size =
     {hd (guids ! i) @ ''-'' @ str_nat t | i t.
        i < batch_size \<and> t < min (num_turns ! i) (length (pred_slot ! i))}"

section \<open>Properties\<close>

subsection \<open>Pair truncation\<close>

lemma truncate_unfold_step:
  assumes "total_length (a, b) > m" "(a, b) \<noteq> ([], [])"
  shows "truncate_seq_pair a b m =
         truncate_seq_pair (fst (longer_first_tie_b (a, b))) (snd (longer_first_tie_b (a, b))) m"
  using assms
  by (subst truncate_seq_pair.simps)
     (auto simp: total_length_def longer_first_tie_b_def pop_def)

lemma total_length_step:
  assumes "p \<noteq> ([], [])"
  shows "total_length (longer_first_tie_b p) = total_length p - 1"
proof -
  obtain a b where p: "p = (a, b)" by (cases p)
  show ?thesis
  proof (cases "length a > length b")
    case True
    then have "int (length a - 1) = int (length a) - 1" by (simp add: of_nat_diff)
    with True show ?thesis by (simp add: p total_length_def longer_first_tie_b_def)
  next
    case False
    with assms p have "b \<noteq> []" by auto
    then have "int (length b - 1) = int (length b) - 1"
      by (cases b) simp_all
    with False show ?thesis by (simp add: p total_length_def longer_first_tie_b_def)
  qed
qed

lemma total_length_nonneg: "0 \<le> total_length p"
  by (simp add: total_length_def)

lemma total_length_zero: "total_length p = 0 \<longleftrightarrow> p = ([], [])"
proof -
  have "total_length p = int (length (fst p) + length (snd p))"
    by (simp add: total_length_def)
  then have "total_length p = 0 \<longleftrightarrow> length (fst p) + length (snd p) = 0"
    by (simp only: of_nat_eq_0_iff)
  then show ?thesis by (cases p) simp
qed

lemma truncate_iterate:
  assumes "0 \<le> m"
  shows "n = nat (total_length (a, b) - m) \<Longrightarrow>
         truncate_seq_pair a b m = Inr ((longer_first_tie_b ^^ n) (a, b)) \<and>
         total_length ((longer_first_tie_b ^^ n) (a, b)) = min (total_length (a, b)) m \<and>
         (\<forall>k<n. total_length ((longer_first_tie_b ^^ k) (a, b)) > m)"
proof (induction n arbitrary: a b)
  case 0
  then have "total_length (a, b) \<le> m" by simp
  then show ?case
    by (subst truncate_seq_pair.simps) (simp add: total_length_def)
next
  case (Suc n)
  let ?p = "longer_first_tie_b (a, b)"
  from Suc.prems have gt: "total_length (a, b) > m" by linarith
  with assms have ne: "(a, b) \<noteq> ([], [])"
    using total_length_zero [of "(a, b)"] by auto
  have tl: "total_length ?p = total_length (a, b) - 1"
    using total_length_step [OF ne] .
  have n: "n = nat (total_length (fst ?p, snd ?p) - m)"
    using Suc.prems tl by simp
  from Suc.IH [OF n]
  have ih: "truncate_seq_pair (fst ?p) (snd ?p) m = Inr ((longer_first_tie_b ^^ n) ?p)"
    and ihl: "total_length ((longer_first_tie_b ^^ n) ?p) = min (total_length ?p) m"
    and ihk: "\<forall>k<n. total_length ((longer_first_tie_b ^^ k) ?p) > m"
    by simp_all
  have "truncate_seq_pair a b m = Inr ((longer_first_tie_b ^^ n) ?p)"
    using truncate_unfold_step [OF gt ne] ih by simp
  moreover have sw: "(longer_first_tie_b ^^ Suc j) (a, b) = (longer_first_tie_b ^^ j) ?p" for j
    by (simp add: funpow_swap1)
  moreover have "min (total_length ?p) m = min (total_length (a, b)) m"
    using tl gt by simp
  moreover have "total_length ((longer_first_tie_b ^^ k) (a, b)) > m" if "k < Suc n" for k
  proof (cases k)
    case 0
    then show ?thesis using gt by simp
  next
    case (Suc j)
    with that have "j < n" by simp
    with ihk have "total_length ((longer_first_tie_b ^^ j) ?p) > m" by blast
    then show ?thesis using Suc sw [of j] by simp
  qed
  ultimately show ?case using ihl by (simp del: funpow.simps)
qed

lemma truncate_negative_budget:
  assumes "m < 0"
  shows "n = length a + length b \<Longrightarrow>
         truncate_seq_pair a b m = Inl IndexError \<and>
         (longer_first_tie_b ^^ n) (a, b) = ([], []) \<and>
         (\<forall>k<n. total_length ((longer_first_tie_b ^^ k) (a, b)) > m)"
proof (induction n arbitrary: a b)
  case 0
  then show ?case
    using assms by (subst truncate_seq_pair.simps) (simp add: pop_def)
next
  case (Suc n)
  let ?p = "longer_first_tie_b (a, b)"
  have gt: "total_length (a, b) > m"
    using assms total_length_nonneg [of "(a, b)"] by linarith
  from Suc.prems have ne: "(a, b) \<noteq> ([], [])" by auto
  have tl: "total_length ?p = total_length (a, b) - 1"
    using total_length_step [OF ne] .
  have n: "n = length (fst ?p) + length (snd ?p)"
    using Suc.prems tl by (simp add: total_length_def)
  from Suc.IH [OF n]
  have ih: "truncate_seq_pair (fst ?p) (snd ?p) m = Inl IndexError"
    and ihl: "(longer_first_tie_b ^^ n) ?p = ([], [])"
    by simp_all
  have sw: "(longer_first_tie_b ^^ Suc j) (a, b) = (longer_first_tie_b ^^ j) ?p" for j
    by (simp add: funpow_swap1)
  have "truncate_seq_pair a b m = Inl IndexError"
    using truncate_unfold_step [OF gt ne] ih by simp
  moreover have "total_length q > m" for q :: "'a list \<times> 'a list"
    using assms total_length_nonneg [of q] by linarith
  ultimately show ?case using ihl sw [of n] by (simp del: funpow.simps)
qed

text \<open>
  Claim C1, as the code has it. For every pair of token sequences whose combined length
  exceeds the budget \<open>m = max_seq_length - 3\<close>, the loop is the repeated application of
  the longer-first rule in which a tie removes the last token of \<open>tokens_b\<close>: every
  state before the \<open>n\<close>-th is still over the budget, and for \<open>0 \<le> m\<close> the loop returns
  the \<open>n\<close>-th state, whose combined length is within the budget. For a negative budget
  the rule runs until both lists are empty and the next pop raises IndexError.
\<close>

theorem truncate_seq_pair_longer_first:
  assumes "total_length (a, b) > m"
  shows "\<exists>n. (\<forall>k<n. total_length ((longer_first_tie_b ^^ k) (a, b)) > m) \<and>
             (if 0 \<le> m
              then truncate_seq_pair a b m = Inr ((longer_first_tie_b ^^ n) (a, b)) \<and>
                   total_length ((longer_first_tie_b ^^ n) (a, b)) \<le> m
              else truncate_seq_pair a b m = Inl IndexError \<and>
                   (longer_first_tie_b ^^ n) (a, b) = ([], []))"
proof (cases "0 \<le> m")
  case True
  from truncate_iterate [OF True refl, of a b] show ?thesis
    using True by (intro exI [of _ "nat (total_length (a, b) - m)"]) simp
next
  case False
  then have "m < 0" by simp
  from truncate_negative_budget [OF this refl, of a b] show ?thesis
    using False by (intro exI [of _ "length a + length b"]) simp
qed

text \<open>
  Claim C1 as stated fails on a tie.
  With one token on each side and a budget of one, the tie removes the token of
  \<open>tokens_b\<close> and leaves \<open>tokens_a\<close> alone; the rule with the tie going to
  \<open>text_a\<close> gives a different pair.
\<close>

theorem truncate_seq_pair_tie_counterexample:
  "truncate_seq_pair [''x''] [''y''] 1 = Inr ([''x''], []) \<and>
   Inr (longer_first_tie_a ([''x''], [''y''])) \<noteq> truncate_seq_pair [''x''] [''y''] 1"
  by (simp add: truncate_seq_pair.simps pop_def longer_first_tie_a_def)

theorem truncate_seq_pair_longer_first_witness:
  "total_length ([''u'', ''v'', ''w''], [''r'']) > 2 \<and>
   truncate_seq_pair [''u'', ''v'', ''w''] [''r''] 2 = Inr ([''u''], [''r''])"
proof -
  have h: "total_length ([''u'', ''v'', ''w''], [''r'']) > 2"
    by (simp add: total_length_def)
  from truncate_seq_pair_longer_first [OF h]
  obtain n where "truncate_seq_pair [''u'', ''v'', ''w''] [''r''] 2 =
       Inr ((longer_first_tie_b ^^ n) ([''u'', ''v'', ''w''], [''r'']))"
    by auto
  moreover have "truncate_seq_pair [''u'', ''v'', ''w''] [''r''] 2 = Inr ([''u''], [''r''])"
    by (simp add: truncate_seq_pair.simps pop_def)
  ultimately show ?thesis using h by simp
qed

lemma truncate_trace_hd: "\<exists>rest. truncate_trace a b m = (a, b) # rest"
  by (subst truncate_trace.simps) simp

lemma successively_truncate_trace:
  "successively no_shorter_removed (truncate_trace a b m)"
proof (induction a b m rule: truncate_trace.induct)
  case (1 a b m)
  show ?case
  proof (cases "int (length a) + int (length b) \<le> m")
    case True
    then show ?thesis by (subst truncate_trace.simps) simp
  next
    case over: False
    show ?thesis
    proof (cases "length a > length b")
      case True
      then have p: "pop a = Inr (butlast a)" by (auto simp: pop_def)
      obtain rest where r: "truncate_trace (butlast a) b m = (butlast a, b) # rest"
        using truncate_trace_hd by blast
      have "successively no_shorter_removed (truncate_trace (butlast a) b m)"
        using "1.IH"(1) [OF over True p] .
      then show ?thesis using over True p r
        by (subst truncate_trace.simps) (simp add: no_shorter_removed_def)
    next
      case False
      show ?thesis
      proof (cases "b = []")
        case True
        then show ?thesis using over False
          by (subst truncate_trace.simps) (simp add: pop_def)
      next
        case ne: False
        then have p: "pop b = Inr (butlast b)" by (auto simp: pop_def)
        obtain rest where r: "truncate_trace a (butlast b) m = (a, butlast b) # rest"
          using truncate_trace_hd by blast
        have "successively no_shorter_removed (truncate_trace a (butlast b) m)"
          using "1.IH"(2) [OF over False p] .
        then show ?thesis using over False p r
          by (subst truncate_trace.simps) (simp add: no_shorter_removed_def)
      qed
    qed
  qed
qed

lemma truncate_trace_last:
  "truncate_seq_pair a b m = Inr r \<Longrightarrow> last (truncate_trace a b m) = r"
proof (induction a b m rule: truncate_seq_pair.induct)
  case (1 a b m)
  show ?case
  proof (cases "int (length a) + int (length b) \<le> m")
    case True
    with "1.prems" show ?thesis
      by (subst truncate_trace.simps) (simp add: truncate_seq_pair.simps)
  next
    case over: False
    show ?thesis
    proof (cases "length a > length b")
      case True
      then have p: "pop a = Inr (butlast a)" by (auto simp: pop_def)
      have "truncate_seq_pair (butlast a) b m = Inr r"
        using "1.prems" over True p by (subst (asm) truncate_seq_pair.simps) simp
      from "1.IH"(1) [OF over True p this]
      have "last (truncate_trace (butlast a) b m) = r" .
      moreover obtain rest where "truncate_trace (butlast a) b m = (butlast a, b) # rest"
        using truncate_trace_hd by blast
      ultimately show ?thesis using over True p
        by (subst truncate_trace.simps) simp
    next
      case False
      show ?thesis
      proof (cases "b = []")
        case True
        with "1.prems" over False show ?thesis
          by (subst (asm) truncate_seq_pair.simps) (simp add: pop_def)
      next
        case ne: False
        then have p: "pop b = Inr (butlast b)" by (auto simp: pop_def)
        have "truncate_seq_pair a (butlast b) m = Inr r"
          using "1.prems" over False p by (subst (asm) truncate_seq_pair.simps) simp
        from "1.IH"(2) [OF over False p this]
        have "last (truncate_trace a (butlast b) m) = r" .
        moreover obtain rest where "truncate_trace a (butlast b) m = (a, butlast b) # rest"
          using truncate_trace_hd by blast
        ultimately show ?thesis using over False p
          by (subst truncate_trace.simps) simp
      qed
    qed
  qed
qed

text \<open>
  Claim C5. For every \<open>tokens_a\<close>, \<open>tokens_b\<close> and budget \<open>0 \<le> m\<close> the loop
  terminates without raising; the combined length of the result is
  \<open>min (a + b) m\<close>; and along the iterations, from the pair passed in to the pair
  returned, no step shortens the sequence that is strictly shorter than the other.
\<close>

theorem truncate_seq_pair_terminates_min:
  assumes "0 \<le> m"
  shows "\<exists>a' b'. truncate_seq_pair a b m = Inr (a', b') \<and>
           int (length a') + int (length b') = min (int (length a) + int (length b)) m \<and>
           hd (truncate_trace a b m) = (a, b) \<and>
           last (truncate_trace a b m) = (a', b') \<and>
           successively no_shorter_removed (truncate_trace a b m)"
proof -
  define n where "n = nat (total_length (a, b) - m)"
  define r where "r = (longer_first_tie_b ^^ n) (a, b)"
  from truncate_iterate [OF assms n_def]
  have res: "truncate_seq_pair a b m = Inr r"
    and len: "total_length r = min (total_length (a, b)) m"
    by (simp_all add: r_def)
  have "last (truncate_trace a b m) = r"
    using truncate_trace_last [OF res] .
  moreover have "hd (truncate_trace a b m) = (a, b)"
    using truncate_trace_hd [of a b m] by auto
  ultimately show ?thesis
    using res len successively_truncate_trace [of a b m]
    by (cases r) (simp add: total_length_def)
qed

theorem truncate_seq_pair_terminates_min_witness:
  "(0::int) \<le> 3 \<and>
   truncate_seq_pair [''a1'', ''a2'', ''a3'', ''a4''] [''b1'', ''b2''] 3 =
     Inr ([''a1'', ''a2''], [''b1'']) \<and>
   truncate_trace [''a1'', ''a2'', ''a3'', ''a4''] [''b1'', ''b2''] 3 =
     [([''a1'', ''a2'', ''a3'', ''a4''], [''b1'', ''b2'']),
      ([''a1'', ''a2'', ''a3''], [''b1'', ''b2'']),
      ([''a1'', ''a2''], [''b1'', ''b2'']),
      ([''a1'', ''a2''], [''b1''])]"
proof -
  have h: "(0::int) \<le> 3" by simp
  from truncate_seq_pair_terminates_min [OF h, of "[''a1'', ''a2'', ''a3'', ''a4'']" "[''b1'', ''b2'']"]
  obtain a' b' where
    "truncate_seq_pair [''a1'', ''a2'', ''a3'', ''a4''] [''b1'', ''b2''] 3 = Inr (a', b')"
    by blast
  moreover have "truncate_seq_pair [''a1'', ''a2'', ''a3'', ''a4''] [''b1'', ''b2''] 3 =
     Inr ([''a1'', ''a2''], [''b1''])"
    by (simp add: truncate_seq_pair.simps pop_def)
  moreover have "truncate_trace [''a1'', ''a2'', ''a3'', ''a4''] [''b1'', ''b2''] 3 =
     [([''a1'', ''a2'', ''a3'', ''a4''], [''b1'', ''b2'']),
      ([''a1'', ''a2'', ''a3''], [''b1'', ''b2'']),
      ([''a1'', ''a2''], [''b1'', ''b2'']),
      ([''a1'', ''a2''], [''b1''])]"
    by (simp add: truncate_trace.simps pop_def)
  ultimately show ?thesis by simp
qed

subsection \<open>The row reader\<close>

lemma read_tsv_loop_error:
  "read_tsv_loop reader lines = Inl e \<longleftrightarrow>
     e = IndexError \<and> (\<exists>line \<in> set reader. line \<noteq> [] \<and> hd line = [])"
proof (induction reader arbitrary: lines)
  case Nil
  then show ?case by simp
next
  case (Cons line reader)
  show ?case
  proof (cases line)
    case Nil
    then show ?thesis using Cons.IH by simp
  next
    case (Cons f fs)
    then show ?thesis using Cons.IH by (cases f) auto
  qed
qed

text \<open>
  Claim C10. Reading raises IndexError exactly when some row the reader yields is
  non-empty and has the empty string as its first field: the guard
  \<^verbatim>\<open>len(line) > 0\<close> does not protect \<^verbatim>\<open>line[0][0]\<close>, and such a row is not kept as a
  data row.
\<close>

theorem read_tsv_empty_first_field:
  "(\<exists>line \<in> set reader. line \<noteq> [] \<and> hd line = []) \<longleftrightarrow> read_tsv reader = Inl IndexError"
  by (auto simp: read_tsv_def read_tsv_loop_error)

theorem read_tsv_empty_first_field_witness:
  "['''', ''hello''] \<noteq> [] \<and> hd ['''', ''hello''] = [] \<and>
   read_tsv [[''d0'', ''0'', ''hi''], ['''', ''hello'']] = Inl IndexError"
proof -
  have "\<exists>line \<in> set [[''d0'', ''0'', ''hi''], ['''', ''hello'']]. line \<noteq> [] \<and> hd line = []"
    by simp
  then show ?thesis
    using read_tsv_empty_first_field [of "[[''d0'', ''0'', ''hi''], ['''', ''hello'']]"]
    by simp
qed

subsection \<open>The example builder\<close>

lemma accumulated_append:
  assumes "i < length done" "length examples = length done"
  shows "accumulated (done @ ls) (examples @ es) i = accumulated done examples i"
proof -
  have "i - 1 < length done" and "done \<noteq> []" using assms by auto
  then show ?thesis using assms
    by (simp add: accumulated_def nth_append)
qed

lemma create_examples_loop_inv:
  assumes "create_examples_loop nslots st True lines prev ta tb examples = Inr result"
    and "length examples = length done"
    and "done = [] \<Longrightarrow> prev = None"
    and "done \<noteq> [] \<Longrightarrow> prev = Some (last done ! 0) \<and> text_a (last examples) = ta \<and>
           text_b (last examples) = Some tb"
    and "\<forall>i<length done. accumulated done examples i"
  shows "length result = length (done @ lines) \<and>
         (\<forall>i<length (done @ lines). accumulated (done @ lines) result i)"
  using assms
proof (induction lines arbitrary: "done" prev ta tb examples)
  case Nil
  then show ?case by simp
next
  case (Cons line lines)
  let ?reset = "prev = None \<or> prev \<noteq> Some (line ! 0)"
  define ta' where "ta' = (if ?reset then line ! 2 else line ! 2 @ '' # '' @ ta)"
  define tb' where "tb' = (if ?reset then line ! 3 else line ! 3 @ '' # '' @ tb)"
  define prev' where "prev' = (if ?reset then Some (line ! 0) else prev)"
  define ex where "ex = \<lparr>guid = st @ ''-'' @ line ! 0 @ ''-'' @ line ! 1, text_a = ta',
     text_b = Some tb', label = map (\<lambda>idx. line ! (4 + idx)) [0..<nslots],
     update = map (\<lambda>idx. line ! (4 + nslots + idx)) [0..<nslots]\<rparr>"
  have nt: "accumulate_texts True line prev ta tb = (ta', tb', prev')"
    by (simp add: accumulate_texts_def ta'_def tb'_def prev'_def)
  have run: "create_examples_loop nslots st True lines prev' ta' tb' (examples @ [ex]) = Inr result"
    using Cons.prems(1) by (simp add: nt ex_def split: if_splits)
  have prev': "prev' = Some (line ! 0)"
    by (auto simp: prev'_def)
  have len: "length (examples @ [ex]) = length (done @ [line])"
    using Cons.prems(2) by simp
  have last: "(done @ [line]) \<noteq> [] \<Longrightarrow>
      prev' = Some (last (done @ [line]) ! 0) \<and> text_a (last (examples @ [ex])) = ta' \<and>
      text_b (last (examples @ [ex])) = Some tb'"
    using prev' by (simp add: ex_def)
  have new: "accumulated (done @ [line]) (examples @ [ex]) (length done)"
  proof (cases "done = []")
    case True
    with Cons.prems(2,3) show ?thesis
      by (simp add: accumulated_def ex_def ta'_def tb'_def)
  next
    case False
    with Cons.prems(4) have p: "prev = Some (last done ! 0)"
      and a: "text_a (last examples) = ta" and b: "text_b (last examples) = Some tb"
      by simp_all
    from False Cons.prems(2) have ne: "examples \<noteq> []" by auto
    have l1: "(done @ [line]) ! (length done - 1) = last done"
      using False by (simp add: nth_append last_conv_nth)
    have l2: "(examples @ [ex]) ! (length done - 1) = last examples"
      using ne Cons.prems(2) False by (simp add: nth_append last_conv_nth)
    have l3: "(done @ [line]) ! length done = line"
      and l4: "(examples @ [ex]) ! length done = ex"
      using Cons.prems(2) by (simp_all add: nth_append)
    have pos: "0 < length done" using False by simp
    show ?thesis
      unfolding accumulated_def l1 l2 l3 l4
      using p a b pos by (simp add: ex_def ta'_def tb'_def)
  qed
  have all: "\<forall>i<length (done @ [line]). accumulated (done @ [line]) (examples @ [ex]) i"
  proof (intro allI impI)
    fix i assume "i < length (done @ [line])"
    then consider "i < length done" | "i = length done" by fastforce
    then show "accumulated (done @ [line]) (examples @ [ex]) i"
    proof cases
      case 1
      then show ?thesis
        using Cons.prems(5) accumulated_append [OF 1 Cons.prems(2), of "[line]" "[ex]"] by simp
    next
      case 2
      then show ?thesis using new by simp
    qed
  qed
  have "prev' = None" if "done @ [line] = []" using that by simp
  from Cons.IH [OF run len this last all] show ?case by simp
qed

lemma create_examples_loop_total:
  "(\<forall>line \<in> set lines. 4 + 2 * nslots \<le> length line) \<Longrightarrow>
   \<exists>result. create_examples_loop nslots st acc lines prev ta tb examples = Inr result"
proof (induction lines arbitrary: prev ta tb examples)
  case Nil
  then show ?case by simp
next
  case (Cons line lines)
  then have ih: "\<exists>result. create_examples_loop nslots st acc lines p a b es = Inr result"
    for p a b es by simp
  from Cons.prems have "\<not> length line < 4 + 2 * nslots" by simp
  then show ?case
    using ih by (cases "accumulate_texts acc line prev ta tb") simp
qed

text \<open>
  Claim C6. With accumulation enabled, every sequence of rows that are long enough
  (\<open>4 + 2 * nslots\<close> fields) yields one example per row, and for every row: if its
  dialogue id equals the previous row's, \<open>text_a\<close> (resp. \<open>text_b\<close>) is the row's
  utterance (resp. response), the separator \<open>'' # ''\<close> and the previous example's
  accumulated text; otherwise, and for the first row, the texts are the row's own
  utterance and response.
\<close>

theorem create_examples_accumulation:
  assumes "\<forall>line \<in> set lines. 4 + 2 * nslots \<le> length line"
  shows "\<exists>examples. create_examples nslots lines set_type True = Inr examples \<and>
           length examples = length lines \<and>
           (\<forall>i<length lines. accumulated lines examples i)"
proof -
  from create_examples_loop_total [OF assms]
  obtain examples where ex: "create_examples nslots lines set_type True = Inr examples"
    unfolding create_examples_def by blast
  have "length examples = length ([] @ lines) \<and>
        (\<forall>i<length ([] @ lines). accumulated ([] @ lines) examples i)"
    by (rule create_examples_loop_inv [where prev = None and examples = "[]" and ta = "[]" and tb = "[]"])
       (use ex in \<open>simp_all add: create_examples_def\<close>)
  with ex show ?thesis by simp
qed

theorem create_examples_accumulation_witness:
  "\<exists>examples.
     create_examples 1
       [[''d1'', ''0'', ''hi'', ''yo'', ''none'', ''0''],
        [''d1'', ''1'', ''more'', ''ok'', ''east'', ''1''],
        [''d2'', ''0'', ''bye'', ''ciao'', ''none'', ''0'']] ''train'' True = Inr examples \<and>
     length examples = 3 \<and>
     map text_a examples = [''hi'', ''more # hi'', ''bye''] \<and>
     map text_b examples = [Some ''yo'', Some ''ok # yo'', Some ''ciao''] \<and>
     accumulated
       [[''d1'', ''0'', ''hi'', ''yo'', ''none'', ''0''],
        [''d1'', ''1'', ''more'', ''ok'', ''east'', ''1''],
        [''d2'', ''0'', ''bye'', ''ciao'', ''none'', ''0'']] examples 1"
proof -
  let ?rows = "[[''d1'', ''0'', ''hi'', ''yo'', ''none'', ''0''],
        [''d1'', ''1'', ''more'', ''ok'', ''east'', ''1''],
        [''d2'', ''0'', ''bye'', ''ciao'', ''none'', ''0'']]"
  have h: "\<forall>line \<in> set ?rows. 4 + 2 * 1 \<le> length line" by simp
  from create_examples_accumulation [OF h, of "''train''"]
  obtain examples where ex: "create_examples 1 ?rows ''train'' True = Inr examples"
    and acc: "\<forall>i<length ?rows. accumulated ?rows examples i"
    and len: "length examples = length ?rows"
    by blast
  from acc have "accumulated ?rows examples 1" by simp
  moreover have
    "create_examples 1 ?rows ''train'' True =
       Inr [\<lparr>guid = ''train-d1-0'', text_a = ''hi'', text_b = Some ''yo'',
              label = [''none''], update = [''0'']\<rparr>,
            \<lparr>guid = ''train-d1-1'', text_a = ''more # hi'', text_b = Some ''ok # yo'',
              label = [''east''], update = [''1'']\<rparr>,
            \<lparr>guid = ''train-d2-0'', text_a = ''bye'', text_b = Some ''ciao'',
              label = [''none''], update = [''0'']\<rparr>]"
    by (simp add: create_examples_def accumulate_texts_def)
  ultimately show ?thesis using ex len by auto
qed

subsection \<open>The turn encoder\<close>

lemma prefix_of_butlast:
  assumes "x = take (length x) (butlast a)"
  shows "x = take (length x) a"
proof (cases "a = []")
  case True
  with assms show ?thesis by simp
next
  case False
  have "length x = length (take (length x) (butlast a))" using assms by simp
  then have "length x \<le> length a - 1" by simp
  with False have "length x < length a" by (cases a) simp_all
  then have "take (length x) (butlast a) = take (length x) a" by (rule take_butlast)
  with assms show ?thesis by simp
qed

lemma truncate_seq_pair_prefix:
  "truncate_seq_pair a b m = Inr (a', b') \<Longrightarrow>
   a' = take (length a') a \<and> b' = take (length b') b"
proof (induction a b m rule: truncate_seq_pair.induct)
  case (1 a b m)
  show ?case
  proof (cases "int (length a) + int (length b) \<le> m")
    case True
    with "1.prems" show ?thesis by (simp add: truncate_seq_pair.simps)
  next
    case over: False
    show ?thesis
    proof (cases "length a > length b")
      case True
      then have p: "pop a = Inr (butlast a)" by (auto simp: pop_def)
      have r: "truncate_seq_pair (butlast a) b m = Inr (a', b')"
        using "1.prems" over True p by (subst (asm) truncate_seq_pair.simps) simp
      from "1.IH"(1) [OF over True p r]
      have ih: "a' = take (length a') (butlast a)" "b' = take (length b') b" by simp_all
      from prefix_of_butlast [OF ih(1)] ih(2) show ?thesis by simp
    next
      case False
      show ?thesis
      proof (cases "b = []")
        case True
        with "1.prems" over False show ?thesis
          by (subst (asm) truncate_seq_pair.simps) (simp add: pop_def)
      next
        case ne: False
        then have p: "pop b = Inr (butlast b)" by (auto simp: pop_def)
        have r: "truncate_seq_pair a (butlast b) m = Inr (a', b')"
          using "1.prems" over False p by (subst (asm) truncate_seq_pair.simps) simp
        from "1.IH"(2) [OF over False p r]
        have ih: "a' = take (length a') a" "b' = take (length b') (butlast b)" by simp_all
        from prefix_of_butlast [OF ih(2)] ih(1) show ?thesis by simp
      qed
    qed
  qed
qed

lemma take_length_take: "take (length (take n xs)) xs = take n xs"
  by (cases "n \<le> length xs") (simp_all add: min_def)

lemma py_slice_to_prefix: "py_slice_to xs k = take (length (py_slice_to xs k)) xs"
proof (cases "0 \<le> k")
  case True
  then show ?thesis
    using take_length_take [of "nat k" xs] by (simp add: py_slice_to_def del: length_take)
next
  case False
  then show ?thesis
    using take_length_take [of "length xs - nat (- k)" xs]
    by (simp add: py_slice_to_def del: length_take)
qed

lemma sep_marker_no_hash: "''#'' \<notin> set (sep_marker xs)"
  by (auto simp: sep_marker_def)

lemma truncated_tokens_total:
  assumes "3 \<le> max_seq_length \<or> \<not> truthy (text_b example)"
  shows "\<exists>tokens_a tokens_b. truncated_tokens tk max_seq_length example = Inr (tokens_a, tokens_b)"
proof (cases "truthy (text_b example)")
  case True
  with assms have m: "0 \<le> max_seq_length - 3" by simp
  from truncate_iterate [OF m refl]
  obtain a' b' where "truncate_seq_pair (sep_marker (tokenize tk (text_a example)))
      (sep_marker (tokenize tk (the (text_b example)))) (max_seq_length - 3) = Inr (a', b')"
    by (metis surj_pair)
  with True show ?thesis by (simp add: truncated_tokens_def Let_def)
next
  case False
  then show ?thesis by (simp add: truncated_tokens_def Let_def)
qed

lemma truncated_tokens_prefix:
  assumes "truncated_tokens tk max_seq_length example = Inr (tokens_a, tokens_b)"
  shows "tokens_a = take (length tokens_a) (sep_marker (tokenize tk (text_a example))) \<and>
         (case tokens_b of
            None \<Rightarrow> \<not> truthy (text_b example)
          | Some b \<Rightarrow> truthy (text_b example) \<and>
              b = take (length b) (sep_marker (tokenize tk (the (text_b example)))))"
proof (cases "truthy (text_b example)")
  case True
  with assms obtain a' b' where
    t: "truncate_seq_pair (sep_marker (tokenize tk (text_a example)))
      (sep_marker (tokenize tk (the (text_b example)))) (max_seq_length - 3) = Inr (a', b')"
    and eq: "tokens_a = a'" "tokens_b = Some b'"
    by (auto simp: truncated_tokens_def Let_def split: sum.splits)
  from truncate_seq_pair_prefix [OF t] True eq show ?thesis by simp
next
  case False
  with assms show ?thesis
    using py_slice_to_prefix [of "sep_marker (tokenize tk (text_a example))" "max_seq_length - 2"]
    by (auto simp: truncated_tokens_def Let_def split: if_splits)
qed

text \<open>
  Claim C7, as the code has it. Whenever the encoder returns (that is, unless
  \<open>text_b\<close> is present and \<open>max_seq_length < 3\<close>), both token lists are prefixes of
  the tokenizer's output with every \<open>''#''\<close> replaced by \<open>''[SEP]''\<close>; the second
  segment is emitted exactly when \<open>tokens_b\<close> exists and is non-empty after
  tokenization and truncation. Then the output is
  \<open>[CLS] + tokens_a + [SEP] + tokens_b + [SEP]\<close> with lengths
  \<open>(len(tokens_a) + 2, len(tokens_b) + 1)\<close>; otherwise it is
  \<open>[CLS] + tokens_a + [SEP]\<close> with lengths \<open>(len(tokens_a) + 2, 0)\<close>.
\<close>

theorem turn_tokens_layout:
  assumes "3 \<le> max_seq_length \<or> \<not> truthy (text_b example)"
  shows "\<exists>tokens_a tokens_b.
           truncated_tokens tk max_seq_length example = Inr (tokens_a, tokens_b) \<and>
           tokens_a = take (length tokens_a) (sep_marker (tokenize tk (text_a example))) \<and>
           (case tokens_b of
              None \<Rightarrow> \<not> truthy (text_b example)
            | Some b \<Rightarrow> truthy (text_b example) \<and>
                b = take (length b) (sep_marker (tokenize tk (the (text_b example))))) \<and>
           ''#'' \<notin> set tokens_a \<and> ''#'' \<notin> set (case tokens_b of None \<Rightarrow> [] | Some b \<Rightarrow> b) \<and>
           turn_tokens tk max_seq_length example =
             Inr (if truthy tokens_b
                  then ([''[CLS]''] @ tokens_a @ [''[SEP]''] @ the tokens_b @ [''[SEP]''],
                        [int (length tokens_a) + 2, int (length (the tokens_b)) + 1])
                  else ([''[CLS]''] @ tokens_a @ [''[SEP]''],
                        [int (length tokens_a) + 2, 0]))"
proof -
  from truncated_tokens_total [OF assms]
  obtain tokens_a tokens_b where
    tt: "truncated_tokens tk max_seq_length example = Inr (tokens_a, tokens_b)" by blast
  note pre = truncated_tokens_prefix [OF tt]
  have ha: "''#'' \<notin> set tokens_a"
    using pre sep_marker_no_hash [of "tokenize tk (text_a example)"]
    by (metis in_set_takeD)
  have hb: "''#'' \<notin> set (case tokens_b of None \<Rightarrow> [] | Some b \<Rightarrow> b)"
  proof (cases tokens_b)
    case None
    then show ?thesis by simp
  next
    case (Some b)
    with pre have "b = take (length b) (sep_marker (tokenize tk (the (text_b example))))"
      by simp
    then show ?thesis
      using Some sep_marker_no_hash [of "tokenize tk (the (text_b example))"]
      by (metis in_set_takeD option.simps(5))
  qed
  have "turn_tokens tk max_seq_length example =
             Inr (if truthy tokens_b
                  then ([''[CLS]''] @ tokens_a @ [''[SEP]''] @ the tokens_b @ [''[SEP]''],
                        [int (length tokens_a) + 2, int (length (the tokens_b)) + 1])
                  else ([''[CLS]''] @ tokens_a @ [''[SEP]''],
                        [int (length tokens_a) + 2, 0]))"
    by (simp add: turn_tokens_def tt assemble_tokens_def Let_def)
  with tt pre ha hb show ?thesis by blast
qed

text \<open>
  Claim C7 as stated fails when \<open>text_b\<close> is present and \<open>tokens_b\<close> is empty.
  A response of one blank is present (a non-empty string) and tokenizes to no token:
  the output has no second segment and no third boundary token, and its second length
  is \<open>0\<close>, not \<open>len(tokens_b) + 1 = 1\<close>. The same happens when truncation empties
  \<open>tokens_b\<close>: with \<open>max_seq_length = 4\<close> the budget is one token, and of
  \<open>a b\<close> and \<open>c\<close> only \<open>a\<close> is left.
\<close>

theorem turn_tokens_blank_text_b_counterexample:
  "truthy (text_b \<lparr>guid = ''train-d-0'', text_a = ''hi there'', text_b = Some '' '',
                    label = [], update = []\<rparr>) \<and>
   truncated_tokens blank_tokenizer 128
     \<lparr>guid = ''train-d-0'', text_a = ''hi there'', text_b = Some '' '',
      label = [], update = []\<rparr> = Inr ([''hi'', ''there''], Some []) \<and>
   turn_tokens blank_tokenizer 128
     \<lparr>guid = ''train-d-0'', text_a = ''hi there'', text_b = Some '' '',
      label = [], update = []\<rparr> = Inr ([''[CLS]'', ''hi'', ''there'', ''[SEP]''], [4, 0]) \<and>
   turn_tokens blank_tokenizer 128
     \<lparr>guid = ''train-d-0'', text_a = ''hi there'', text_b = Some '' '',
      label = [], update = []\<rparr> \<noteq>
     Inr ([''[CLS]''] @ [''hi'', ''there''] @ [''[SEP]''] @ [] @ [''[SEP]''], [4, 1]) \<and>
   truncated_tokens blank_tokenizer 4
     \<lparr>guid = ''train-d-1'', text_a = ''a b'', text_b = Some ''c'',
      label = [], update = []\<rparr> = Inr ([''a''], Some []) \<and>
   turn_tokens blank_tokenizer 4
     \<lparr>guid = ''train-d-1'', text_a = ''a b'', text_b = Some ''c'',
      label = [], update = []\<rparr> = Inr ([''[CLS]'', ''a'', ''[SEP]''], [3, 0])"
  by (simp add: truthy_def turn_tokens_def truncated_tokens_def assemble_tokens_def
      blank_tokenizer_def sep_marker_def truncate_seq_pair.simps pop_def)

theorem turn_tokens_layout_witness:
  "(3 \<le> (6::int) \<or> \<not> truthy (text_b \<lparr>guid = ''train-d-1'', text_a = ''more # hi'',
      text_b = Some ''ok # yo'', label = [], update = []\<rparr>)) \<and>
   turn_tokens blank_tokenizer 6
     \<lparr>guid = ''train-d-1'', text_a = ''more # hi'', text_b = Some ''ok # yo'',
      label = [], update = []\<rparr> =
     Inr ([''[CLS]'', ''more'', ''[SEP]'', ''[SEP]'', ''ok'', ''[SEP]''], [4, 2])"
proof -
  let ?e = "\<lparr>guid = ''train-d-1'', text_a = ''more # hi'',
      text_b = Some ''ok # yo'', label = [], update = []\<rparr>"
  have h: "3 \<le> (6::int) \<or> \<not> truthy (text_b ?e)" by simp
  from turn_tokens_layout [OF h, of blank_tokenizer]
  obtain tokens_a tokens_b where
    "truncated_tokens blank_tokenizer 6 ?e = Inr (tokens_a, tokens_b)"
    and tt: "turn_tokens blank_tokenizer 6 ?e =
             Inr (if truthy tokens_b
                  then ([''[CLS]''] @ tokens_a @ [''[SEP]''] @ the tokens_b @ [''[SEP]''],
                        [int (length tokens_a) + 2, int (length (the tokens_b)) + 1])
                  else ([''[CLS]''] @ tokens_a @ [''[SEP]''],
                        [int (length tokens_a) + 2, 0]))"
    by blast
  moreover have "truncated_tokens blank_tokenizer 6 ?e = Inr ([''more'', ''[SEP]''], Some [''ok''])"
    by (simp add: truthy_def truncated_tokens_def blank_tokenizer_def sep_marker_def
        truncate_seq_pair.simps pop_def)
  ultimately have "tokens_a = [''more'', ''[SEP]'']" "tokens_b = Some [''ok'']" by simp_all
  with tt h show ?thesis by (simp add: truthy_def)
qed

subsection \<open>The dialogue assembler\<close>

lemma truncate_seq_pair_error:
  "truncate_seq_pair a b m = Inl e \<Longrightarrow> e = IndexError"
proof (induction a b m rule: truncate_seq_pair.induct)
  case (1 a b m)
  from "1.prems" show ?case
    by (subst (asm) truncate_seq_pair.simps)
       (auto simp: pop_def split: if_splits intro: "1.IH")
qed

lemma turn_tokens_error: "turn_tokens tk msl example = Inl e \<Longrightarrow> e = IndexError"
  by (auto simp: turn_tokens_def truncated_tokens_def Let_def
      split: sum.splits if_splits dest: truncate_seq_pair_error)

lemma label_ids_of_error:
  "label_ids_of lm i ls = Inl e \<Longrightarrow> e = IndexError \<or> e = KeyError"
  by (induction ls arbitrary: i) (auto split: if_splits option.splits sum.splits)

lemma py_int_error: "py_int s = Inl e \<Longrightarrow> e = ValueError"
  by (auto simp: py_int_def split: list.splits if_splits option.splits)

lemma map_int_error: "map_int ss = Inl e \<Longrightarrow> e = ValueError"
  by (induction ss) (auto split: sum.splits dest: py_int_error)

lemma encode_example_error:
  "encode_example tk lm msl example = Inl e \<Longrightarrow> e \<noteq> AssertionError"
  by (auto simp: encode_example_def turn_idx_of_def split: sum.splits prod.splits
      dest: turn_tokens_error label_ids_of_error py_int_error)

lemma max_turn_loop_error: "max_turn_loop examples mt = Inl e \<Longrightarrow> e = ValueError"
  by (induction examples arbitrary: mt)
     (auto simp: turn_idx_of_def split: sum.splits dest: py_int_error)

lemma features_loop_error:
  "features_loop tk lm msl mtl examples afs fs prev = Inl e \<Longrightarrow> e \<noteq> AssertionError"
proof (induction examples arbitrary: afs fs prev)
  case Nil
  then show ?case by simp
next
  case (Cons example examples)
  show ?case
  proof (cases "encode_example tk lm msl example")
    case (Inl e')
    with Cons.prems show ?thesis by (auto dest: encode_example_error)
  next
    case (Inr r)
    obtain ids len lab t where r: "r = (ids, len, lab, t)" by (cases r)
    show ?thesis
    proof (cases "keep_turn prev mtl")
      case keep: True
      show ?thesis
      proof (cases "map_int (update example)")
        case (Inl e')
        with Cons.prems Inr r keep show ?thesis
          by (auto simp: Let_def dest: map_int_error)
      next
        case u: (Inr u)
        with Cons.prems Inr r keep obtain A F P where
          "features_loop tk lm msl mtl examples A F P = Inl e"
          by (simp add: Let_def)
        then show ?thesis by (rule Cons.IH)
      qed
    next
      case False
      with Cons.prems Inr r obtain A F P where
        "features_loop tk lm msl mtl examples A F P = Inl e"
        by (simp add: Let_def)
      then show ?thesis by (rule Cons.IH)
    qed
  qed
qed

lemma features_loop_subseq:
  assumes "\<forall>e \<in> set examples. \<exists>f. feature_of tk lm msl e = Inr f"
  shows "\<exists>result rest.
           features_loop tk lm msl mtl examples afs fs prev = Inr result \<and>
           concat result = concat afs @ fs @ rest \<and>
           subseq rest (map (\<lambda>e. projr (feature_of tk lm msl e)) examples)"
  using assms
proof (induction examples arbitrary: afs fs prev)
  case Nil
  then show ?case by simp
next
  case (Cons example examples)
  from Cons.prems obtain f where f: "feature_of tk lm msl example = Inr f" by auto
  then obtain ids len lab t u where
    enc: "encode_example tk lm msl example = Inr (ids, len, lab, t)"
    and upd: "map_int (update example) = Inr u"
    and fdef: "f = \<lparr>input_ids = ids, input_len = len, label_id = lab, update_ids = u,
                   feature_guid = guid_of (guid example)\<rparr>"
    by (auto simp: feature_of_def split: sum.splits prod.splits)
  define flush where "flush = new_dialogue prev (dialogue_idx_of (guid example))"
  define afs' where "afs' = (if flush then afs @ [fs] else afs)"
  define fs' where "fs' = (if flush then [] else fs)"
  have cat: "concat afs' @ fs' = concat afs @ fs"
    by (simp add: afs'_def fs'_def)
  from Cons.prems have rest: "\<forall>e \<in> set examples. \<exists>f. feature_of tk lm msl e = Inr f"
    by simp
  show ?case
  proof (cases "keep_turn prev mtl")
    case True
    from Cons.IH [OF rest, of afs' "fs' @ [f]" "Some (dialogue_idx_of (guid example), t)"]
    obtain result rest' where
      r: "features_loop tk lm msl mtl examples afs' (fs' @ [f])
            (Some (dialogue_idx_of (guid example), t)) = Inr result"
      and c: "concat result = concat afs' @ (fs' @ [f]) @ rest'"
      and s: "subseq rest' (map (\<lambda>e. projr (feature_of tk lm msl e)) examples)"
      by blast
    have "features_loop tk lm msl mtl (example # examples) afs fs prev = Inr result"
      using True enc upd r
      by (simp add: Let_def flush_def afs'_def fs'_def fdef)
    moreover have "concat result = concat afs @ fs @ (f # rest')"
      using c cat by simp
    moreover have "subseq (f # rest') (map (\<lambda>e. projr (feature_of tk lm msl e)) (example # examples))"
      using s f by simp
    ultimately show ?thesis by blast
  next
    case False
    from Cons.IH [OF rest, of afs' fs' "Some (dialogue_idx_of (guid example), t)"]
    obtain result rest' where
      r: "features_loop tk lm msl mtl examples afs' fs'
            (Some (dialogue_idx_of (guid example), t)) = Inr result"
      and c: "concat result = concat afs' @ fs' @ rest'"
      and s: "subseq rest' (map (\<lambda>e. projr (feature_of tk lm msl e)) examples)"
      by blast
    have "features_loop tk lm msl mtl (example # examples) afs fs prev = Inr result"
      using False enc r
      by (simp add: Let_def flush_def afs'_def fs'_def)
    moreover have "concat result = concat afs @ fs @ rest'"
      using c cat by simp
    moreover have "subseq rest' (map (\<lambda>e. projr (feature_of tk lm msl e)) (example # examples))"
      using s by (simp add: list_emb_Cons)
    ultimately show ?thesis by blast
  qed
qed

lemma max_turn_loop_total:
  "\<forall>e \<in> set examples. \<exists>t. turn_idx_of (guid e) = Inr t \<Longrightarrow>
   \<exists>mt'. max_turn_loop examples mt = Inr mt'"
  by (induction examples arbitrary: mt) auto

lemma feature_of_turn_idx:
  "feature_of tk lm msl e = Inr f \<Longrightarrow> \<exists>t. turn_idx_of (guid e) = Inr t"
  by (auto simp: feature_of_def encode_example_def split: sum.splits prod.splits)

text \<open>
  Claim C9, as the code has it. The dialogue assembler checks nothing about turn
  indices: it never fails with an AssertionError, and for every input whose examples
  can each be encoded (whatever their turn indices, contiguous and ascending or not)
  it returns, and the turns it retains appear in the order of the input, none
  reordered.
\<close>

theorem SUMBTDataset_init_no_integrity_check:
  "SUMBTDataset_init examples label_list tk max_seq_length max_turn_length \<noteq> Inl AssertionError \<and>
   ((\<forall>e \<in> set examples.
        \<exists>f. feature_of tk (map label_map_of label_list) max_seq_length e = Inr f) \<longrightarrow>
    (\<exists>all_features.
        SUMBTDataset_init examples label_list tk max_seq_length max_turn_length = Inr all_features \<and>
        subseq (concat all_features)
          (map (\<lambda>e. projr (feature_of tk (map label_map_of label_list) max_seq_length e))
               examples)))"
proof (intro conjI impI)
  show "SUMBTDataset_init examples label_list tk max_seq_length max_turn_length \<noteq> Inl AssertionError"
    by (auto simp: SUMBTDataset_init_def Let_def split: sum.splits
        dest: max_turn_loop_error features_loop_error)
next
  let ?lm = "map label_map_of label_list"
  assume enc: "\<forall>e \<in> set examples. \<exists>f. feature_of tk ?lm max_seq_length e = Inr f"
  then have "\<forall>e \<in> set examples. \<exists>t. turn_idx_of (guid e) = Inr t"
    by (blast dest: feature_of_turn_idx)
  from max_turn_loop_total [OF this]
  obtain mt where mt: "max_turn_loop examples 0 = Inr mt" by blast
  from features_loop_subseq [OF enc, of "min (mt + 1) max_turn_length" "[]" "[]" None]
  obtain result rest where
    "features_loop tk ?lm max_seq_length (min (mt + 1) max_turn_length) examples [] [] None = Inr result"
    "concat result = rest"
    "subseq rest (map (\<lambda>e. projr (feature_of tk ?lm max_seq_length e)) examples)"
    by auto
  with mt show "\<exists>all_features.
        SUMBTDataset_init examples label_list tk max_seq_length max_turn_length = Inr all_features \<and>
        subseq (concat all_features)
          (map (\<lambda>e. projr (feature_of tk ?lm max_seq_length e)) examples)"
    by (simp add: SUMBTDataset_init_def Let_def)
qed


lemmas init_eval = SUMBTDataset_init_def turn_idx_of_def py_int_def digit_val_def
  encode_example_def turn_tokens_def truncated_tokens_def assemble_tokens_def
  blank_tokenizer_def sep_marker_def truthy_def label_map_of_def dialogue_idx_of_def
  guid_of_def new_dialogue_def keep_turn_def Let_def

text \<open>
  Claim C9 as stated fails: no input makes the assembler raise an integrity error.
  A dialogue whose turn indices come as \<open>2, 0\<close>, neither ascending nor contiguous, is
  accepted as it is.
\<close>

theorem SUMBTDataset_init_unordered_counterexample:
  "SUMBTDataset_init
     [\<lparr>guid = ''train-d-2'', text_a = ''b'', text_b = None, label = [''east''], update = [''1'']\<rparr>,
      \<lparr>guid = ''train-d-0'', text_a = ''a a'', text_b = None, label = [''none''], update = [''0'']\<rparr>]
     [[''none'', ''east'']] blank_tokenizer 128 22 =
   Inr [[\<lparr>input_ids = [5, 1, 5], input_len = [3, 0], label_id = [1], update_ids = [1],
          feature_guid = ''d''\<rparr>,
         \<lparr>input_ids = [5, 1, 1, 5], input_len = [4, 0], label_id = [0], update_ids = [0],
          feature_guid = ''d''\<rparr>]]"
  by (simp add: init_eval)

theorem SUMBTDataset_init_no_integrity_check_witness:
  "SUMBTDataset_init
     [\<lparr>guid = ''dev-d-1'', text_a = ''b'', text_b = None, label = [''east''], update = [''1'']\<rparr>,
      \<lparr>guid = ''dev-d-3'', text_a = ''a a'', text_b = None, label = [''none''], update = [''0'']\<rparr>]
     [[''none'', ''east'']] blank_tokenizer 128 22 \<noteq> Inl AssertionError \<and>
   (\<exists>all_features.
      SUMBTDataset_init
        [\<lparr>guid = ''dev-d-1'', text_a = ''b'', text_b = None, label = [''east''], update = [''1'']\<rparr>,
         \<lparr>guid = ''dev-d-3'', text_a = ''a a'', text_b = None, label = [''none''], update = [''0'']\<rparr>]
        [[''none'', ''east'']] blank_tokenizer 128 22 = Inr all_features \<and>
      concat all_features =
        [\<lparr>input_ids = [5, 1, 5], input_len = [3, 0], label_id = [1], update_ids = [1],
          feature_guid = ''d''\<rparr>,
         \<lparr>input_ids = [5, 1, 1, 5], input_len = [4, 0], label_id = [0], update_ids = [0],
          feature_guid = ''d''\<rparr>])"
proof -
  let ?e1 = "\<lparr>guid = ''dev-d-1'', text_a = ''b'', text_b = None, label = [''east''],
               update = [''1'']\<rparr>"
  let ?e2 = "\<lparr>guid = ''dev-d-3'', text_a = ''a a'', text_b = None, label = [''none''],
               update = [''0'']\<rparr>"
  let ?lm = "map label_map_of [[''none'', ''east'']]"
  have f1: "feature_of blank_tokenizer ?lm 128 ?e1 =
      Inr \<lparr>input_ids = [5, 1, 5], input_len = [3, 0], label_id = [1], update_ids = [1],
          feature_guid = ''d''\<rparr>"
    by (simp add: feature_of_def init_eval)
  have f2: "feature_of blank_tokenizer ?lm 128 ?e2 =
      Inr \<lparr>input_ids = [5, 1, 1, 5], input_len = [4, 0], label_id = [0], update_ids = [0],
          feature_guid = ''d''\<rparr>"
    by (simp add: feature_of_def init_eval)
  have h: "\<forall>e \<in> set [?e1, ?e2]. \<exists>f. feature_of blank_tokenizer ?lm 128 e = Inr f"
    using f1 f2 by simp
  note inst = SUMBTDataset_init_no_integrity_check
    [of "[?e1, ?e2]" "[[''none'', ''east'']]" blank_tokenizer 128 22]
  from inst have ne: "SUMBTDataset_init [?e1, ?e2] [[''none'', ''east'']] blank_tokenizer 128 22
      \<noteq> Inl AssertionError"
    by (rule conjunct1)
  from inst h obtain all_features where
    "SUMBTDataset_init [?e1, ?e2] [[''none'', ''east'']] blank_tokenizer 128 22 = Inr all_features"
    by blast
  then have ex: "\<exists>all_features.
      SUMBTDataset_init [?e1, ?e2] [[''none'', ''east'']] blank_tokenizer 128 22 = Inr all_features"
    by blast
  have ev: "SUMBTDataset_init [?e1, ?e2] [[''none'', ''east'']] blank_tokenizer 128 22 =
      Inr [[\<lparr>input_ids = [5, 1, 5], input_len = [3, 0], label_id = [1], update_ids = [1],
          feature_guid = ''d''\<rparr>,
         \<lparr>input_ids = [5, 1, 1, 5], input_len = [4, 0], label_id = [0], update_ids = [0],
          feature_guid = ''d''\<rparr>]]"
    by (simp add: init_eval)
  show ?thesis using ne ex unfolding ev by simp
qed

text \<open>
  Claim C2 at a concrete input. With \<open>max_turn_length = 1\<close>, dialogue \<open>d\<close> has the
  turns \<open>0, 1, 2\<close> and dialogue \<open>e\<close> the turns \<open>0, 1\<close>. The claim keeps turn
  \<open>0\<close> of each. The loop tests the turn index of the previous example, so it keeps
  the turns \<open>0\<close> and \<open>1\<close> of \<open>d\<close> (token ids of lengths 3 and 4), and of \<open>e\<close>
  it drops turn \<open>0\<close> and keeps turn \<open>1\<close>.
\<close>

theorem SUMBTDataset_init_keeps_turn_at_cap:
  "SUMBTDataset_init
     [\<lparr>guid = ''train-d-0'', text_a = ''a'', text_b = None, label = [''east''], update = [''1'']\<rparr>,
      \<lparr>guid = ''train-d-1'', text_a = ''b b'', text_b = None, label = [''east''], update = [''0'']\<rparr>,
      \<lparr>guid = ''train-d-2'', text_a = ''c c c'', text_b = None, label = [''east''], update = [''0'']\<rparr>,
      \<lparr>guid = ''train-e-0'', text_a = ''x'', text_b = None, label = [''none''], update = [''0'']\<rparr>,
      \<lparr>guid = ''train-e-1'', text_a = ''y y'', text_b = None, label = [''none''], update = [''0'']\<rparr>]
     [[''none'', ''east'']] blank_tokenizer 128 1 =
   Inr [[\<lparr>input_ids = [5, 1, 5], input_len = [3, 0], label_id = [1], update_ids = [1],
          feature_guid = ''d''\<rparr>,
         \<lparr>input_ids = [5, 1, 1, 5], input_len = [4, 0], label_id = [1], update_ids = [0],
          feature_guid = ''d''\<rparr>],
        [\<lparr>input_ids = [5, 1, 1, 5], input_len = [4, 0], label_id = [0], update_ids = [0],
          feature_guid = ''e''\<rparr>]]"
  by (simp add: init_eval)

subsection \<open>Padding and collation\<close>

lemma py_max_Max: "xs \<noteq> [] \<Longrightarrow> py_max xs = Inr (Max (set xs))"
proof (cases xs)
  case Nil
  assume "xs \<noteq> []"
  with Nil show ?thesis by simp
next
  case (Cons a list)
  have "fold max list a = Max (set (a # list))" by (rule Max.set_eq_fold [symmetric])
  with Cons show ?thesis by simp
qed

lemma sizes1_ok:
  "\<forall>s \<in> set seq. s \<noteq> [] \<Longrightarrow> sizes1 seq = Inr (map (\<lambda>s. length (hd s)) seq)"
  by (induction seq) (auto simp: size1_def split: list.splits)

lemma padded_row:
  "t < T \<Longrightarrow> padded T L p s ! t =
     map (\<lambda>l. if t < length s \<and> l < length (hd s) then s ! t ! l else p) [0..<L]"
  by (simp add: padded_def)

lemma pad_row:
  assumes "length r = n" "n \<le> L"
  shows "map (\<lambda>l. if l < n then r ! l else p) [0..<L] = r @ replicate (L - n) p"
proof (rule nth_equalityI)
  show "length (map (\<lambda>l. if l < n then r ! l else p) [0..<L]) = length (r @ replicate (L - n) p)"
    using assms by simp
next
  fix i assume "i < length (map (\<lambda>l. if l < n then r ! l else p) [0..<L])"
  then have i: "i < L" by simp
  show "map (\<lambda>l. if l < n then r ! l else p) [0..<L] ! i = (r @ replicate (L - n) p) ! i"
  proof (cases "i < n")
    case True
    with i assms show ?thesis by (simp add: nth_append)
  next
    case False
    with i assms show ?thesis by (simp add: nth_append)
  qed
qed

lemma padded_append:
  assumes "is_tensor2 s" "length s \<le> T" "length (hd s) \<le> L"
  shows "padded T L p s =
         map (\<lambda>r. r @ replicate (L - length r) p) s @ replicate (T - length s) (replicate L p)"
proof (rule nth_equalityI)
  show "length (padded T L p s) =
        length (map (\<lambda>r. r @ replicate (L - length r) p) s @
                replicate (T - length s) (replicate L p))"
    using assms(2) by (simp add: padded_def)
next
  fix t assume "t < length (padded T L p s)"
  then have t: "t < T" by (simp add: padded_def)
  show "padded T L p s ! t =
        (map (\<lambda>r. r @ replicate (L - length r) p) s @
         replicate (T - length s) (replicate L p)) ! t"
  proof (cases "t < length s")
    case True
    then have "s ! t \<in> set s" by simp
    then have len: "length (s ! t) = length (hd s)"
      using assms(1) unfolding is_tensor2_def by blast
    have "padded T L p s ! t = map (\<lambda>l. if l < length (hd s) then s ! t ! l else p) [0..<L]"
      using True by (simp add: padded_row [OF t])
    also have "\<dots> = s ! t @ replicate (L - length (hd s)) p"
      by (rule pad_row [OF len assms(3)])
    also have "\<dots> = (map (\<lambda>r. r @ replicate (L - length r) p) s @
         replicate (T - length s) (replicate L p)) ! t"
      using True len by (simp add: nth_append)
    finally show ?thesis .
  next
    case False
    have "padded T L p s ! t = map (\<lambda>l. p) [0..<L]"
      using False by (simp add: padded_row [OF t])
    also have "\<dots> = replicate L p"
      by (simp add: map_replicate_const)
    also have "\<dots> = (map (\<lambda>r. r @ replicate (L - length r) p) s @
         replicate (T - length s) (replicate L p)) ! t"
      using False t by (simp add: nth_append)
    finally show ?thesis .
  qed
qed


lemma padding_ok:
  assumes "seq \<noteq> []" "\<forall>s \<in> set seq. is_tensor2 s"
  shows "padding seq p =
         Inr (map (padded (Max (set (map length seq)))
                          (Max (set (map (\<lambda>s. length (hd s)) seq))) p) seq)"
proof -
  have "\<forall>s \<in> set seq. s \<noteq> []" using assms(2) by (auto simp: is_tensor2_def)
  then have "sizes1 seq = Inr (map (\<lambda>s. length (hd s)) seq)" by (rule sizes1_ok)
  then show ?thesis
    using assms(1) by (simp add: padding_def py_max_Max)
qed

lemma torch_tensor_Inr: "torch_tensor rows = Inr t \<Longrightarrow> t = rows \<and> (\<forall>r \<in> set rows. length r = length (hd rows))"
  by (auto simp: torch_tensor_def split: if_splits)

lemma getitem_shape:
  assumes "getitem all_features k = Inr (ids, len, lab, upd, g)"
  shows "k < length all_features" and "all_features ! k \<noteq> []"
    and "is_tensor2 ids" and "is_tensor2 len" and "is_tensor2 lab" and "is_tensor2 upd"
    and "length ids = length (all_features ! k)"
    and "len = map input_len (all_features ! k)"
    and "lab = map label_id (all_features ! k)"
    and "upd = map update_ids (all_features ! k)"
    and "g = map feature_guid (all_features ! k)"
    and "\<forall>t<length (all_features ! k).
            take (length (input_ids (all_features ! k ! t))) (ids ! t) =
              input_ids (all_features ! k ! t) \<and>
            set (drop (length (input_ids (all_features ! k ! t))) (ids ! t)) \<subseteq> {0}"
proof -
  let ?fs = "all_features ! k"
  from assms show k: "k < length all_features"
    by (auto simp: getitem_def split: if_splits)
  from assms k show ne: "?fs \<noteq> []"
    by (auto simp: getitem_def Let_def split: sum.splits)
  from assms k obtain max_len where
    ti: "torch_tensor (map (\<lambda>i. i @ replicate (max_len - length i) 0) (map input_ids ?fs)) = Inr ids"
    and tl: "torch_tensor (map input_len ?fs) = Inr len"
    and tb: "torch_tensor (map label_id ?fs) = Inr lab"
    and tu: "torch_tensor (map update_ids ?fs) = Inr upd"
    and g: "g = map feature_guid ?fs"
    by (auto simp: getitem_def Let_def split: sum.splits)
  note i = torch_tensor_Inr [OF ti] and l = torch_tensor_Inr [OF tl]
    and b = torch_tensor_Inr [OF tb] and u = torch_tensor_Inr [OF tu]
  show "is_tensor2 ids" using i ne by (simp add: is_tensor2_def)
  show "is_tensor2 len" using l ne by (simp add: is_tensor2_def)
  show "is_tensor2 lab" using b ne by (simp add: is_tensor2_def)
  show "is_tensor2 upd" using u ne by (simp add: is_tensor2_def)
  show "length ids = length ?fs" using i by simp
  show "len = map input_len ?fs" using l by simp
  show "lab = map label_id ?fs" using b by simp
  show "upd = map update_ids ?fs" using u by simp
  show "g = map feature_guid ?fs" by (rule g)
  show "\<forall>t<length ?fs.
      take (length (input_ids (?fs ! t))) (ids ! t) = input_ids (?fs ! t) \<and>
      set (drop (length (input_ids (?fs ! t))) (ids ! t)) \<subseteq> {0}"
    using i by auto
qed

lemma Max_map_ge: "x \<in> set xs \<Longrightarrow> f x \<le> Max (set (map f xs))"
  by simp




subsection \<open>Turn validity\<close>


lemma label_map_fold_nonneg:
  "fold (\<lambda>(i, l) m. m(l \<mapsto> int i)) xs m0 l = Some k \<Longrightarrow> m0 l = Some k \<or> 0 \<le> k"
proof (induction xs arbitrary: m0)
  case Nil
  then show ?case by simp
next
  case (Cons x xs)
  obtain i l' where x: "x = (i, l')" by (cases x)
  from Cons.prems have "fold (\<lambda>(i, l) m. m(l \<mapsto> int i)) xs (m0(l' \<mapsto> int i)) l = Some k"
    unfolding x by (simp only: fold_simps o_apply case_prod_conv)
  from Cons.IH [OF this] show ?case by (auto split: if_splits)
qed

lemma label_map_of_nonneg: "label_map_of labels l = Some k \<Longrightarrow> 0 \<le> k"
  using label_map_fold_nonneg [of "enumerate 0 labels" Map.empty l k]
  by (simp add: label_map_of_def)

lemma label_ids_of_nonneg:
  assumes "label_ids_of lm i ls = Inr ks"
    and "\<forall>m \<in> set lm. \<forall>l k. m l = Some k \<longrightarrow> 0 \<le> k"
  shows "length ks = length ls \<and> (\<forall>k \<in> set ks. 0 \<le> k)"
  using assms(1)
proof (induction ls arbitrary: i ks)
  case Nil
  then show ?case by simp
next
  case (Cons l ls)
  from Cons.prems obtain k ks' where
    i: "i < length lm" and k: "(lm ! i) l = Some k"
    and r: "label_ids_of lm (Suc i) ls = Inr ks'" and ks: "ks = k # ks'"
    by (auto split: if_splits option.splits sum.splits)
  from i have "lm ! i \<in> set lm" by simp
  with assms(2) k have "0 \<le> k" by blast
  with Cons.IH [OF r] ks show ?case by simp
qed

lemma feature_of_label_id:
  assumes "feature_of tk (map label_map_of label_list) msl e = Inr f"
  shows "length (label_id f) = length (label e) \<and> (\<forall>k \<in> set (label_id f). 0 \<le> k)"
proof -
  from assms obtain ks where
    l: "label_ids_of (map label_map_of label_list) 0 (label e) = Inr ks"
    and f: "label_id f = ks"
    by (auto simp: feature_of_def encode_example_def split: sum.splits prod.splits)
  have "\<forall>m \<in> set (map label_map_of label_list). \<forall>l k. m l = Some k \<longrightarrow> 0 \<le> k"
    by (auto dest: label_map_of_nonneg)
  from label_ids_of_nonneg [OF l this] f show ?thesis by simp
qed

lemma features_loop_pred:
  assumes "features_loop tk lm msl mtl examples afs fs prev = Inr result"
    and "\<forall>f \<in> set (concat afs) \<union> set fs. Q f"
    and "\<forall>e \<in> set examples. \<forall>f. feature_of tk lm msl e = Inr f \<longrightarrow> Q f"
  shows "\<forall>f \<in> set (concat result). Q f"
  using assms
proof (induction examples arbitrary: afs fs prev)
  case Nil
  then have "concat result = concat afs @ fs" by auto
  then have "set (concat result) = set (concat afs) \<union> set fs" by (simp only: set_append)
  with Nil.prems(2) show ?case by (simp only:)
next
  case (Cons example examples)
  from Cons.prems(1) obtain ids len lab t where
    enc: "encode_example tk lm msl example = Inr (ids, len, lab, t)"
    by (auto split: sum.splits)
  define afs' where "afs' = (if new_dialogue prev (dialogue_idx_of (guid example))
                             then afs @ [fs] else afs)"
  define fs' where "fs' = (if new_dialogue prev (dialogue_idx_of (guid example))
                            then [] else fs)"
  have acc: "\<forall>f \<in> set (concat afs') \<union> set fs'. Q f"
    using Cons.prems(2) by (auto simp: afs'_def fs'_def)
  from Cons.prems(3) have rest:
    "\<forall>e \<in> set examples. \<forall>f. feature_of tk lm msl e = Inr f \<longrightarrow> Q f" by simp
  show ?case
  proof (cases "keep_turn prev mtl")
    case True
    with Cons.prems(1) enc obtain u where
      upd: "map_int (update example) = Inr u"
      and run: "features_loop tk lm msl mtl examples afs'
          (fs' @ [\<lparr>input_ids = ids, input_len = len, label_id = lab, update_ids = u,
                    feature_guid = guid_of (guid example)\<rparr>])
          (Some (dialogue_idx_of (guid example), t)) = Inr result"
      by (auto simp: Let_def afs'_def fs'_def split: sum.splits)
    have "feature_of tk lm msl example =
        Inr \<lparr>input_ids = ids, input_len = len, label_id = lab, update_ids = u,
             feature_guid = guid_of (guid example)\<rparr>"
      by (simp add: feature_of_def enc upd)
    with Cons.prems(3) have "Q \<lparr>input_ids = ids, input_len = len, label_id = lab,
        update_ids = u, feature_guid = guid_of (guid example)\<rparr>" by simp
    with acc have "\<forall>f \<in> set (concat afs') \<union>
        set (fs' @ [\<lparr>input_ids = ids, input_len = len, label_id = lab, update_ids = u,
                      feature_guid = guid_of (guid example)\<rparr>]). Q f"
      by auto
    from Cons.IH [OF run this rest] show ?thesis .
  next
    case False
    with Cons.prems(1) enc have
      run: "features_loop tk lm msl mtl examples afs' fs'
          (Some (dialogue_idx_of (guid example), t)) = Inr result"
      by (simp add: Let_def afs'_def fs'_def)
    from Cons.IH [OF run acc rest] show ?thesis .
  qed
qed

lemma SUMBTDataset_init_label_ids:
  assumes "SUMBTDataset_init examples label_list tk msl mtl = Inr all_features"
    and "\<forall>e \<in> set examples. label e \<noteq> []"
  shows "\<forall>fs \<in> set all_features. \<forall>f \<in> set fs. label_id f \<noteq> [] \<and> hd (label_id f) \<noteq> - 1"
proof -
  let ?Q = "\<lambda>f. label_id f \<noteq> [] \<and> hd (label_id f) \<noteq> - 1"
  from assms(1) obtain mt where
    run: "features_loop tk (map label_map_of label_list) msl (min (mt + 1) mtl)
            examples [] [] None = Inr all_features"
    by (auto simp: SUMBTDataset_init_def Let_def split: sum.splits)
  have "?Q f" if e: "e \<in> set examples"
    and f: "feature_of tk (map label_map_of label_list) msl e = Inr f" for e f
  proof -
    from feature_of_label_id [OF f] e assms(2)
    have ne: "label_id f \<noteq> []" and nn: "\<forall>k \<in> set (label_id f). 0 \<le> k" by auto
    from ne have "hd (label_id f) \<in> set (label_id f)" by simp
    with nn have "0 \<le> hd (label_id f)" by blast
    with ne show ?thesis by simp
  qed
  then have "\<forall>e \<in> set examples. \<forall>f.
      feature_of tk (map label_map_of label_list) msl e = Inr f \<longrightarrow> ?Q f" by blast
  from features_loop_pred [OF run _ this, of] have "\<forall>f \<in> set (concat all_features). ?Q f"
    by simp
  then show ?thesis by auto
qed

lemma hd_padded:
  assumes "is_tensor2 s" "length s \<le> T" "length (hd s) \<le> L"
    and "\<forall>r \<in> set s. r \<noteq> [] \<and> hd r \<noteq> p"
  shows "map hd (padded T L p s) = map hd s @ replicate (T - length s) p"
    and "\<forall>r \<in> set (padded T L p s). r \<noteq> []"
proof -
  from assms(1) have "hd s \<in> set s" by (simp add: is_tensor2_def)
  with assms(4) have "hd s \<noteq> []" by blast
  with assms(3) have L: "0 < L" by (cases "hd s") auto
  have h1: "map hd (map (\<lambda>r. r @ replicate (L - length r) p) s) = map hd s"
    using assms(4) by simp
  have h2: "map hd (replicate (T - length s) (replicate L p)) = replicate (T - length s) p"
    using L by (cases L) simp_all
  show "map hd (padded T L p s) = map hd s @ replicate (T - length s) p"
    by (simp only: padded_append [OF assms(1-3)] map_append h1 h2)
  show "\<forall>r \<in> set (padded T L p s). r \<noteq> []"
    using assms(4) L by (auto simp: padded_append [OF assms(1-3)])
qed

lemma count_padded:
  assumes "is_tensor2 s" "length s \<le> T" "length (hd s) \<le> L"
    and "\<forall>r \<in> set s. r \<noteq> [] \<and> hd r \<noteq> p"
  shows "length (filter (\<lambda>v. v \<noteq> p) (map hd (padded T L p s))) = length s"
proof -
  have "filter (\<lambda>v. v \<noteq> p) (map hd s) = map hd s"
    using assms(4) by (intro filter_True) auto
  moreover have "filter (\<lambda>v. v \<noteq> p) (replicate (T - length s) p) = []"
    by simp
  ultimately show ?thesis
    by (simp only: hd_padded(1) [OF assms] filter_append append_Nil2 length_map)
qed

lemma valid_padded:
  assumes "is_tensor2 s" "length s \<le> T" "length (hd s) \<le> L"
    and "\<forall>r \<in> set s. r \<noteq> [] \<and> hd r \<noteq> p"
    and "t < T"
  shows "t < length s \<longleftrightarrow> padded T L p s ! t ! 0 \<noteq> p"
proof -
  have len: "length (padded T L p s) = T" by (simp add: padded_def)
  with assms(5) have mem: "padded T L p s ! t \<in> set (padded T L p s)" by simp
  with hd_padded(2) [OF assms(1-4)] have "padded T L p s ! t \<noteq> []" by blast
  then have "padded T L p s ! t ! 0 = hd (padded T L p s ! t)" by (simp add: hd_conv_nth)
  also have "\<dots> = map hd (padded T L p s) ! t" using assms(5) len by simp
  also have "\<dots> = (map hd s @ replicate (T - length s) p) ! t"
    by (simp only: hd_padded(1) [OF assms(1-4)])
  finally have eq: "padded T L p s ! t ! 0 = (map hd s @ replicate (T - length s) p) ! t" .
  show ?thesis
  proof (cases "t < length s")
    case True
    then have "s ! t \<in> set s" by simp
    with assms(4) have "hd (s ! t) \<noteq> p" by blast
    with True eq show ?thesis by (simp add: nth_append)
  next
    case False
    with assms(5) eq show ?thesis by (simp add: nth_append)
  qed
qed

lemma collate_fn_label_ids:
  assumes "items \<noteq> []"
    and "\<forall>k<length items. getitem all_features (idxs ! k) = Inr (items ! k)"
  shows "\<exists>a b d.
     collate_fn items =
       Inr (a, b,
            map (padded (Max (set (map (\<lambda>(a, b, c, d, g). length a) items)))
                        (Max (set (map (\<lambda>s. length (hd s)) (map (\<lambda>(a, b, c, d, g). c) items))))
                        (- 1))
                (map (\<lambda>(a, b, c, d, g). c) items),
            d, map (\<lambda>(a, b, c, d, g). g) items, map (\<lambda>(a, b, c, d, g). length a) items)"
proof -
  let ?A = "map (\<lambda>(a, b, c, d, g). a) items"
  let ?B = "map (\<lambda>(a, b, c, d, g). b) items"
  let ?C = "map (\<lambda>(a, b, c, d, g). c) items"
  let ?D = "map (\<lambda>(a, b, c, d, g). d) items"
  let ?N = "map (\<lambda>(a, b, c, d, g). length a) items"
  have shape: "is_tensor2 a \<and> is_tensor2 b \<and> is_tensor2 c \<and> is_tensor2 d \<and>
      length b = length a \<and> length c = length a \<and> length d = length a"
    if "(a, b, c, d, g) \<in> set items" for a b c d g
  proof -
    from that obtain k where k: "k < length items" "items ! k = (a, b, c, d, g)"
      by (auto simp: in_set_conv_nth)
    with assms(2) have "getitem all_features (idxs ! k) = Inr (a, b, c, d, g)" by auto
    from getitem_shape(3-10) [OF this] show ?thesis by simp
  qed
  have tA: "\<forall>s \<in> set ?A. is_tensor2 s" using shape by auto
  have tB: "\<forall>s \<in> set ?B. is_tensor2 s" using shape by auto
  have tC: "\<forall>s \<in> set ?C. is_tensor2 s" using shape by auto
  have tD: "\<forall>s \<in> set ?D. is_tensor2 s" using shape by auto
  have ne: "?A \<noteq> []" "?B \<noteq> []" "?C \<noteq> []" "?D \<noteq> []" using assms(1) by simp_all
  have lC: "map length ?C = ?N" using shape by auto
  obtain oa where oa: "padding ?A 0 = Inr oa" using padding_ok [OF ne(1) tA] by blast
  obtain ob where ob: "padding ?B 0 = Inr ob" using padding_ok [OF ne(2) tB] by blast
  obtain od where od: "padding ?D (- 1) = Inr od" using padding_ok [OF ne(4) tD] by blast
  note oc = padding_ok [OF ne(3) tC, of "- 1", unfolded lC]
  show ?thesis
    by (simp add: collate_fn_def oa ob oc od)
qed

lemma nb_eval_ex_count:
  assumes "\<forall>s \<in> set seq. is_tensor2 s \<and> length s \<le> T \<and> length (hd s) \<le> L \<and>
             (\<forall>r \<in> set s. r \<noteq> [] \<and> hd r \<noteq> - 1)"
  shows "nb_eval_ex (map (padded T L (- 1)) seq) = Inr (sum_list (map length seq))"
proof -
  have rows: "\<not> (\<exists>r \<in> set (concat (map (padded T L (- 1)) seq)). r = [])"
    using assms hd_padded(2) [of _ T L "- 1"] by fastforce
  have "length (filter (\<lambda>v. v \<noteq> - 1) (map hd (concat (map (padded T L (- 1)) seq)))) =
        sum_list (map length seq)"
    using assms
  proof (induction seq)
    case Nil
    then show ?case by simp
  next
    case (Cons s seq)
    then have "length (filter (\<lambda>v. v \<noteq> - 1) (map hd (padded T L (- 1) s))) = length s"
      by (intro count_padded) simp_all
    with Cons show ?case by simp
  qed
  with rows show ?thesis by (simp add: nb_eval_ex_def Let_def)
qed

text \<open>
  Claim C4. For every batch collated from dialogues of a data set built by
  \<^verbatim>\<open>SUMBTDataset.__init__\<close> from examples with at least one slot: for every dialogue
  \<open>b\<close> and turn \<open>t\<close> of the batch, \<open>t < num_turns[b]\<close> holds exactly when
  \<open>label_ids[b, t, 0]\<close> is not \<open>-1\<close>; and the number of valid turns counted from
  \<open>label_ids[:, :, 0] != -1\<close> is the sum of the dialogues' own turn counts.
\<close>

theorem turn_validity_consistency:
  assumes "SUMBTDataset_init examples label_list tk max_seq_length max_turn_length =
             Inr all_features"
    and "\<forall>e \<in> set examples. label e \<noteq> []"
    and "items \<noteq> []"
    and "\<forall>k<length items. getitem all_features (idxs ! k) = Inr (items ! k)"
  shows "\<exists>input_ids' input_len' label_ids' update' guids_list num_turns_list.
     collate_fn items =
       Inr (input_ids', input_len', label_ids', update', guids_list, num_turns_list) \<and>
     (\<forall>b<length items.
        num_turns_list ! b = length (all_features ! (idxs ! b)) \<and>
        length (label_ids' ! b) = Max (set num_turns_list) \<and>
        (\<forall>t<length (label_ids' ! b).
           t < num_turns_list ! b \<longleftrightarrow> label_ids' ! b ! t ! 0 \<noteq> - 1)) \<and>
     nb_eval_ex label_ids' = Inr (sum_list num_turns_list)"
proof -
  let ?C = "map (\<lambda>(a, b, c, d, g). c) items"
  let ?N = "map (\<lambda>(a, b, c, d, g). length a) items"
  let ?T = "Max (set ?N)"
  let ?S = "Max (set (map (\<lambda>s. length (hd s)) ?C))"
  from collate_fn_label_ids [OF assms(3,4)] obtain oa ob od where
    res: "collate_fn items =
      Inr (oa, ob, map (padded ?T ?S (- 1)) ?C, od, map (\<lambda>(a, b, c, d, g). g) items, ?N)"
    by blast
  have item: "length a = length (all_features ! (idxs ! k)) \<and> length c = length a \<and>
      is_tensor2 c \<and> (\<forall>r \<in> set c. r \<noteq> [] \<and> hd r \<noteq> - 1)"
    if k: "k < length items" and it: "items ! k = (a, b, c, d, g)" for k a b c d g
  proof -
    from assms(4) k it have "getitem all_features (idxs ! k) = Inr (a, b, c, d, g)" by auto
    note sh = getitem_shape [OF this]
    from sh(1) have "all_features ! (idxs ! k) \<in> set all_features" by simp
    with SUMBTDataset_init_label_ids [OF assms(1,2)]
    have "\<forall>f \<in> set (all_features ! (idxs ! k)). label_id f \<noteq> [] \<and> hd (label_id f) \<noteq> - 1"
      by blast
    then have rows: "\<forall>r \<in> set c. r \<noteq> [] \<and> hd r \<noteq> - 1"
      unfolding sh(9) by auto
    have "length c = length a" using sh(7) by (simp add: sh(9))
    with sh(5,7) rows show ?thesis by blast
  qed
  have lC: "map length ?C = ?N"
  proof (rule nth_equalityI)
    show "length (map length ?C) = length ?N" by simp
  next
    fix k assume "k < length (map length ?C)"
    then have k: "k < length items" by simp
    obtain a b c d g where it: "items ! k = (a, b, c, d, g)" by (rule prod_cases5)
    from item [OF k it] k it show "map length ?C ! k = ?N ! k" by simp
  qed
  have good: "is_tensor2 c \<and> length c \<le> ?T \<and> length (hd c) \<le> ?S \<and>
      (\<forall>r \<in> set c. r \<noteq> [] \<and> hd r \<noteq> - 1)" if "c \<in> set ?C" for c
  proof -
    from that obtain it where "it \<in> set items" and c: "c = (\<lambda>(a, b, c, d, g). c) it"
      by auto
    then obtain k where k: "k < length items" and ik: "items ! k = it"
      unfolding in_set_conv_nth by blast
    obtain a b c' d g where it: "it = (a, b, c', d, g)" by (rule prod_cases5)
    with c have c': "c' = c" by simp
    note i = item [OF k ik [unfolded it c']]
    have "length c \<le> Max (set (map length ?C))" using that by (rule Max_map_ge)
    then have "length c \<le> ?T" by (simp only: lC)
    moreover have "length (hd c) \<le> ?S" using that by (rule Max_map_ge)
    ultimately show ?thesis using i by simp
  qed
  have per: "?N ! b = length (all_features ! (idxs ! b)) \<and>
        length (map (padded ?T ?S (- 1)) ?C ! b) = ?T \<and>
        (\<forall>t<length (map (padded ?T ?S (- 1)) ?C ! b).
           t < ?N ! b \<longleftrightarrow> map (padded ?T ?S (- 1)) ?C ! b ! t ! 0 \<noteq> - 1)"
    if b: "b < length items" for b
  proof -
    obtain a b' c d g where it: "items ! b = (a, b', c, d, g)" by (rule prod_cases5)
    note i = item [OF b it]
    have cb: "?C ! b = c" and nb: "?N ! b = length c" using b it i by simp_all
    have "?C ! b \<in> set ?C" using b by (intro nth_mem) simp
    then have "c \<in> set ?C" by (simp only: cb)
    note g = good [OF this]
    have len: "length (padded ?T ?S (- 1) c) = ?T" by (simp add: padded_def)
    have v: "t < length c \<longleftrightarrow> padded ?T ?S (- 1) c ! t ! 0 \<noteq> - 1" if "t < ?T" for t
      using g that by (intro valid_padded) simp_all
    have "map (padded ?T ?S (- 1)) ?C ! b = padded ?T ?S (- 1) (?C ! b)"
      using b by (intro nth_map) simp
    then have p1: "map (padded ?T ?S (- 1)) ?C ! b = padded ?T ?S (- 1) c"
      by (simp only: cb)
    from i have n1: "length c = length (all_features ! (idxs ! b))" by simp
    show ?thesis
      unfolding p1 nb len
    proof (intro conjI allI impI)
      show "length c = length (all_features ! (idxs ! b))" by (rule n1)
      show "?T = ?T" by (rule refl)
      fix t assume "t < ?T"
      then show "t < length c \<longleftrightarrow> padded ?T ?S (- 1) c ! t ! 0 \<noteq> - 1" by (rule v)
    qed
  qed
  have "nb_eval_ex (map (padded ?T ?S (- 1)) ?C) = Inr (sum_list (map length ?C))"
    using good by (intro nb_eval_ex_count) blast
  then have "nb_eval_ex (map (padded ?T ?S (- 1)) ?C) = Inr (sum_list ?N)"
    by (simp only: lC)
  with res per show ?thesis by blast
qed

theorem turn_validity_consistency_witness:
  "SUMBTDataset_init
     [\<lparr>guid = ''test-d-0'', text_a = ''a'', text_b = None, label = [''east''], update = [''1'']\<rparr>,
      \<lparr>guid = ''test-d-1'', text_a = ''b b'', text_b = None, label = [''none''], update = [''0'']\<rparr>,
      \<lparr>guid = ''test-e-0'', text_a = ''c d e'', text_b = None, label = [''none''], update = [''0'']\<rparr>]
     [[''none'', ''east'']] blank_tokenizer 128 22 =
   Inr [[\<lparr>input_ids = [5, 1, 5], input_len = [3, 0], label_id = [1], update_ids = [1],
          feature_guid = ''d''\<rparr>,
         \<lparr>input_ids = [5, 1, 1, 5], input_len = [4, 0], label_id = [0], update_ids = [0],
          feature_guid = ''d''\<rparr>],
        [\<lparr>input_ids = [5, 1, 1, 1, 5], input_len = [5, 0], label_id = [0], update_ids = [0],
          feature_guid = ''e''\<rparr>]] \<and>
   collate_fn
     [([[5, 1, 5, 0], [5, 1, 1, 5]], [[3, 0], [4, 0]], [[1], [0]], [[1], [0]], [''d'', ''d'']),
      ([[5, 1, 1, 1, 5]], [[5, 0]], [[0]], [[0]], [''e''])] =
     Inr ([[[5, 1, 5, 0, 0], [5, 1, 1, 5, 0]], [[5, 1, 1, 1, 5], [0, 0, 0, 0, 0]]],
          [[[3, 0], [4, 0]], [[5, 0], [0, 0]]],
          [[[1], [0]], [[0], [- 1]]],
          [[[1], [0]], [[0], [- 1]]],
          [[''d'', ''d''], [''e'']], [2, 1]) \<and>
   nb_eval_ex [[[1], [0]], [[0], [- 1]]] = Inr 3"
proof -
  let ?EX = "[\<lparr>guid = ''test-d-0'', text_a = ''a'', text_b = None, label = [''east''], update = [''1'']\<rparr>,
      \<lparr>guid = ''test-d-1'', text_a = ''b b'', text_b = None, label = [''none''], update = [''0'']\<rparr>,
      \<lparr>guid = ''test-e-0'', text_a = ''c d e'', text_b = None, label = [''none''], update = [''0'']\<rparr>]"
  let ?AF = "[[\<lparr>input_ids = [5, 1, 5], input_len = [3, 0], label_id = [1], update_ids = [1],
          feature_guid = ''d''\<rparr>,
         \<lparr>input_ids = [5, 1, 1, 5], input_len = [4, 0], label_id = [0], update_ids = [0],
          feature_guid = ''d''\<rparr>],
        [\<lparr>input_ids = [5, 1, 1, 1, 5], input_len = [5, 0], label_id = [0], update_ids = [0],
          feature_guid = ''e''\<rparr>]]"
  let ?I0 = "([[5, 1, 5, 0], [5, 1, 1, 5]], [[3, 0], [4, 0]], [[1], [0]], [[1], [0]],
             [''d'', ''d'']) :: item"
  let ?I1 = "([[5, 1, 1, 1, 5]], [[5, 0]], [[0]], [[0]], [''e'']) :: item"
  have init: "SUMBTDataset_init ?EX [[''none'', ''east'']] blank_tokenizer 128 22 = Inr ?AF"
    by (simp add: init_eval)
  have labels: "\<forall>e \<in> set ?EX. label e \<noteq> []" by simp
  have g0: "getitem ?AF 0 = Inr ?I0"
    by (simp add: getitem_def torch_tensor_def)
  have g1: "getitem ?AF 1 = Inr ?I1"
    by (simp add: getitem_def torch_tensor_def)
  have h: "\<forall>k<length [?I0, ?I1]. getitem ?AF ([0, 1] ! k) = Inr ([?I0, ?I1] ! k)"
    using g0 g1 by (simp add: less_Suc_eq numeral_2_eq_2 all_conj_distrib)
  have ne: "[?I0, ?I1] \<noteq> []" by simp
  have ev: "collate_fn [?I0, ?I1] =
     Inr ([[[5, 1, 5, 0, 0], [5, 1, 1, 5, 0]], [[5, 1, 1, 1, 5], [0, 0, 0, 0, 0]]],
          [[[3, 0], [4, 0]], [[5, 0], [0, 0]]],
          [[[1], [0]], [[0], [- 1]]],
          [[[1], [0]], [[0], [- 1]]],
          [[''d'', ''d''], [''e'']], [2, 1])"
    by code_simp
  have "nb_eval_ex [[[1], [0]], [[0], [- 1]]] = Inr (sum_list [2, 1])"
    using turn_validity_consistency [OF init labels ne h] unfolding ev by auto
  then have "nb_eval_ex [[[1], [0]], [[0], [- 1]]] = Inr 3" by simp
  with init ev show ?thesis by simp
qed

subsection \<open>Decoding predictions\<close>

lemma decode_state_ok:
  assumes "\<forall>(s, p) \<in> set sps.
             case ontology s of
               None \<Rightarrow> False
             | Some vals \<Rightarrow> - int (length vals) \<le> p \<and> p < int (length vals)"
  shows "decode_state ontology sps =
         Inr (map (\<lambda>(s, v). s @ ''-'' @ v)
                (filter (\<lambda>(s, v). v \<noteq> ''none'')
                   (map (\<lambda>(s, p). (s, decoded_value ontology s p)) sps)))"
  using assms
proof (induction sps)
  case Nil
  then show ?case by simp
next
  case (Cons sp sps)
  obtain s p where sp: "sp = (s, p)" by (cases sp)
  from Cons.prems sp obtain vals where
    o: "ontology s = Some vals" and r: "- int (length vals) \<le> p" "p < int (length vals)"
    by (auto split: option.splits)
  have idx: "py_index vals p = Inr (decoded_value ontology s p)"
    using r by (simp add: py_index_def decoded_value_def o Let_def)
  from Cons.prems have "\<forall>(s, p) \<in> set sps.
             case ontology s of
               None \<Rightarrow> False
             | Some vals \<Rightarrow> - int (length vals) \<le> p \<and> p < int (length vals)"
    by simp
  from Cons.IH [OF this] show ?case
    by (simp add: sp o idx)
qed

lemma decode_states_ok:
  "\<forall>pred \<in> set preds. decodable ontology slot_meta pred \<Longrightarrow>
   decode_states ontology slot_meta preds = Inr (map (decoded_state ontology slot_meta) preds)"
proof (induction preds)
  case Nil
  then show ?case by simp
next
  case (Cons pred preds)
  then have "decodable ontology slot_meta pred" by simp
  then have "decode_state ontology (zip slot_meta pred) =
      Inr (decoded_state ontology slot_meta pred)"
    unfolding decodable_def decoded_state_def by (rule decode_state_ok)
  with Cons show ?case by simp
qed

lemma store_states_entry:
  "if \<exists>t<length states. key = guid' @ ''-'' @ str_nat (tid + t)
   then \<exists>t<length states. key = guid' @ ''-'' @ str_nat (tid + t) \<and>
          store_states guid' tid states predictions key = Some (states ! t)
   else store_states guid' tid states predictions key = predictions key"
proof (induction states arbitrary: tid predictions)
  case Nil
  then show ?case by simp
next
  case (Cons state states)
  let ?P = "predictions(guid' @ ''-'' @ str_nat tid \<mapsto> state)"
  note ih = Cons.IH [of "Suc tid" ?P]
  show ?case
  proof (cases "\<exists>t<length states. key = guid' @ ''-'' @ str_nat (Suc tid + t)")
    case True
    with ih obtain t where t: "t < length states"
      "key = guid' @ ''-'' @ str_nat (Suc tid + t)"
      "store_states guid' (Suc tid) states ?P key = Some (states ! t)"
      by auto
    then have "Suc t < length (state # states) \<and>
        key = guid' @ ''-'' @ str_nat (tid + Suc t) \<and>
        store_states guid' tid (state # states) predictions key = Some ((state # states) ! Suc t)"
      by simp
    then have "\<exists>t<length (state # states). key = guid' @ ''-'' @ str_nat (tid + t) \<and>
        store_states guid' tid (state # states) predictions key = Some ((state # states) ! t)"
      by blast
    moreover from this have "\<exists>t<length (state # states). key = guid' @ ''-'' @ str_nat (tid + t)"
      by blast
    ultimately show ?thesis by (simp only: if_True)
  next
    case False
    with ih have st: "store_states guid' (Suc tid) states ?P key = ?P key"
      by (simp only: if_False)
    show ?thesis
    proof (cases "key = guid' @ ''-'' @ str_nat tid")
      case True
      with st have "0 < length (state # states) \<and> key = guid' @ ''-'' @ str_nat (tid + 0) \<and>
          store_states guid' tid (state # states) predictions key = Some ((state # states) ! 0)"
        by simp
      then have "\<exists>t<length (state # states). key = guid' @ ''-'' @ str_nat (tid + t) \<and>
          store_states guid' tid (state # states) predictions key = Some ((state # states) ! t)"
        by blast
      moreover from this have "\<exists>t<length (state # states). key = guid' @ ''-'' @ str_nat (tid + t)"
        by blast
      ultimately show ?thesis by (simp only: if_True)
    next
      case neq: False
      have "\<not> (\<exists>t<length (state # states). key = guid' @ ''-'' @ str_nat (tid + t))"
      proof
        assume "\<exists>t<length (state # states). key = guid' @ ''-'' @ str_nat (tid + t)"
        then obtain t where t: "t < length (state # states)"
          "key = guid' @ ''-'' @ str_nat (tid + t)" by blast
        show False
        proof (cases t)
          case 0
          with t neq show False by simp
        next
          case (Suc t')
          with t have "t' < length states" "key = guid' @ ''-'' @ str_nat (Suc tid + t')"
            by simp_all
          with False show False by blast
        qed
      qed
      moreover have "store_states guid' tid (state # states) predictions key = predictions key"
        using st neq by simp
      ultimately show ?thesis by (simp only: if_False)
    qed
  qed
qed

lemma predict_loop_entry:
  assumes "\<forall>i \<in> set idxs.
             i < length guids \<and> guids ! i \<noteq> [] \<and> i < length pred_slot \<and>
             i < length num_turns \<and>
             (\<forall>pred \<in> set (take (num_turns ! i) (pred_slot ! i)).
                decodable ontology slot_meta pred)"
  shows "\<exists>predictions'.
     predict_loop ontology slot_meta guids pred_slot num_turns idxs predictions =
       Inr predictions' \<and>
     (\<forall>key.
        if \<exists>i \<in> set idxs. \<exists>t<min (num_turns ! i) (length (pred_slot ! i)).
             key = hd (guids ! i) @ ''-'' @ str_nat t
        then \<exists>i \<in> set idxs. \<exists>t<min (num_turns ! i) (length (pred_slot ! i)).
               key = hd (guids ! i) @ ''-'' @ str_nat t \<and>
               predictions' key = Some (decoded_state ontology slot_meta (pred_slot ! i ! t))
        else predictions' key = predictions key)"
  using assms
proof (induction idxs arbitrary: predictions)
  case Nil
  then show ?case by simp
next
  case (Cons i idxs)
  let ?n = "min (num_turns ! i) (length (pred_slot ! i))"
  let ?states = "map (decoded_state ontology slot_meta) (take (num_turns ! i) (pred_slot ! i))"
  from Cons.prems have wf: "i < length guids" "guids ! i \<noteq> []" "i < length pred_slot"
    "i < length num_turns"
    "\<forall>pred \<in> set (take (num_turns ! i) (pred_slot ! i)). decodable ontology slot_meta pred"
    by simp_all
  from wf(2) obtain g gs where g: "guids ! i = g # gs" by (cases "guids ! i") auto
  have dec: "decode_states ontology slot_meta (take (num_turns ! i) (pred_slot ! i)) = Inr ?states"
    using wf(5) by (rule decode_states_ok)
  have len: "length ?states = ?n" by (simp add: min.commute)
  have nth: "?states ! t = decoded_state ontology slot_meta (pred_slot ! i ! t)" if "t < ?n" for t
    using that by simp
  let ?P1 = "store_states g 0 ?states predictions"
  from Cons.prems have rest: "\<forall>i \<in> set idxs.
             i < length guids \<and> guids ! i \<noteq> [] \<and> i < length pred_slot \<and>
             i < length num_turns \<and>
             (\<forall>pred \<in> set (take (num_turns ! i) (pred_slot ! i)).
                decodable ontology slot_meta pred)"
    by simp
  from Cons.IH [OF rest, of ?P1] obtain P' where
    run: "predict_loop ontology slot_meta guids pred_slot num_turns idxs ?P1 = Inr P'"
    and ih: "\<And>key.
        if \<exists>j \<in> set idxs. \<exists>t<min (num_turns ! j) (length (pred_slot ! j)).
             key = hd (guids ! j) @ ''-'' @ str_nat t
        then \<exists>j \<in> set idxs. \<exists>t<min (num_turns ! j) (length (pred_slot ! j)).
               key = hd (guids ! j) @ ''-'' @ str_nat t \<and>
               P' key = Some (decoded_state ontology slot_meta (pred_slot ! j ! t))
        else P' key = ?P1 key"
    by blast
  have res: "predict_loop ontology slot_meta guids pred_slot num_turns (i # idxs) predictions =
      Inr P'"
    using wf(1,3,4) g dec run by simp
  have "if \<exists>j \<in> set (i # idxs). \<exists>t<min (num_turns ! j) (length (pred_slot ! j)).
             key = hd (guids ! j) @ ''-'' @ str_nat t
        then \<exists>j \<in> set (i # idxs). \<exists>t<min (num_turns ! j) (length (pred_slot ! j)).
               key = hd (guids ! j) @ ''-'' @ str_nat t \<and>
               P' key = Some (decoded_state ontology slot_meta (pred_slot ! j ! t))
        else P' key = predictions key" for key
  proof (cases "\<exists>j \<in> set idxs. \<exists>t<min (num_turns ! j) (length (pred_slot ! j)).
             key = hd (guids ! j) @ ''-'' @ str_nat t")
    case True
    with ih [of key] have "\<exists>j \<in> set idxs. \<exists>t<min (num_turns ! j) (length (pred_slot ! j)).
               key = hd (guids ! j) @ ''-'' @ str_nat t \<and>
               P' key = Some (decoded_state ontology slot_meta (pred_slot ! j ! t))"
      by (simp only: if_True)
    then have "\<exists>j \<in> set (i # idxs). \<exists>t<min (num_turns ! j) (length (pred_slot ! j)).
               key = hd (guids ! j) @ ''-'' @ str_nat t \<and>
               P' key = Some (decoded_state ontology slot_meta (pred_slot ! j ! t))"
      by auto
    moreover from this have "\<exists>j \<in> set (i # idxs).
        \<exists>t<min (num_turns ! j) (length (pred_slot ! j)). key = hd (guids ! j) @ ''-'' @ str_nat t"
      by blast
    ultimately show ?thesis by (simp only: if_True)
  next
    case False
    with ih [of key] have p1: "P' key = ?P1 key" by (simp only: if_False)
    note st = store_states_entry [of ?states key g 0 predictions]
    show ?thesis
    proof (cases "\<exists>t<?n. key = g @ ''-'' @ str_nat t")
      case True
      then have "\<exists>t<length ?states. key = g @ ''-'' @ str_nat (0 + t)"
        by (simp only: len add_0)
      with st have "\<exists>t<length ?states. key = g @ ''-'' @ str_nat (0 + t) \<and>
          ?P1 key = Some (?states ! t)"
        by (simp only: if_True)
      then obtain t where t: "t < ?n" "key = g @ ''-'' @ str_nat t" "?P1 key = Some (?states ! t)"
        by (auto simp only: len add_0)
      with nth [OF t(1)] p1 g have "i \<in> set (i # idxs) \<and> t < ?n \<and>
          key = hd (guids ! i) @ ''-'' @ str_nat t \<and>
          P' key = Some (decoded_state ontology slot_meta (pred_slot ! i ! t))"
        by simp
      then have "\<exists>j \<in> set (i # idxs). \<exists>t<min (num_turns ! j) (length (pred_slot ! j)).
               key = hd (guids ! j) @ ''-'' @ str_nat t \<and>
               P' key = Some (decoded_state ontology slot_meta (pred_slot ! j ! t))"
        by blast
      moreover from this have "\<exists>j \<in> set (i # idxs).
          \<exists>t<min (num_turns ! j) (length (pred_slot ! j)). key = hd (guids ! j) @ ''-'' @ str_nat t"
        by blast
      ultimately show ?thesis by (simp only: if_True)
    next
      case no: False
      then have "\<not> (\<exists>t<length ?states. key = g @ ''-'' @ str_nat (0 + t))"
        by (simp only: len add_0 not_False_eq_True)
      with st have "?P1 key = predictions key" by (simp only: if_False)
      with p1 have "P' key = predictions key" by simp
      moreover have "\<not> (\<exists>j \<in> set (i # idxs).
          \<exists>t<min (num_turns ! j) (length (pred_slot ! j)). key = hd (guids ! j) @ ''-'' @ str_nat t)"
        using False no g by auto
      ultimately show ?thesis by (simp only: if_False)
    qed
  qed
  with res show ?case by blast
qed

text \<open>
  Claim C8. For every batch whose predictions can be decoded (every dialogue has a
  guid, a prediction and a turn count, and every predicted id of its first
  \<open>num_turns[i]\<close> turns is in range for its slot), the loop returns; the keys it
  writes are exactly \<open>"{guid}-{t}"\<close> for the dialogues \<open>i\<close> of the batch and
  \<open>t < num_turns[i]\<close> (as far as the tracker's output has rows), so a padded turn
  gets no entry; the entry of a written key is, for such an \<open>i\<close> and \<open>t\<close>, the list
  of the \<open>"{slot}-{value}"\<close> strings of exactly the slots of that turn whose decoded
  value is not \<open>''none''\<close>; and every other key keeps what it had.
\<close>

theorem predictions_output:
  assumes "\<forall>i<batch_size.
             i < length guids \<and> guids ! i \<noteq> [] \<and> i < length pred_slot \<and>
             i < length num_turns \<and>
             (\<forall>pred \<in> set (take (num_turns ! i) (pred_slot ! i)).
                decodable ontology slot_meta pred)"
  shows "\<exists>predictions'.
     predict_batch ontology slot_meta guids pred_slot num_turns batch_size predictions =
       Inr predictions' \<and>
     dom predictions' =
       dom predictions \<union> prediction_keys guids pred_slot num_turns batch_size \<and>
     (\<forall>key \<in> prediction_keys guids pred_slot num_turns batch_size.
        \<exists>i t. i < batch_size \<and> t < min (num_turns ! i) (length (pred_slot ! i)) \<and>
              key = hd (guids ! i) @ ''-'' @ str_nat t \<and>
              predictions' key = Some (decoded_state ontology slot_meta (pred_slot ! i ! t))) \<and>
     (\<forall>key. key \<notin> prediction_keys guids pred_slot num_turns batch_size \<longrightarrow>
        predictions' key = predictions key)"
proof -
  let ?K = "prediction_keys guids pred_slot num_turns batch_size"
  have wf: "\<forall>i \<in> set [0..<batch_size].
             i < length guids \<and> guids ! i \<noteq> [] \<and> i < length pred_slot \<and>
             i < length num_turns \<and>
             (\<forall>pred \<in> set (take (num_turns ! i) (pred_slot ! i)).
                decodable ontology slot_meta pred)"
    using assms by simp
  from predict_loop_entry [OF wf, of predictions] obtain P' where
    run: "predict_loop ontology slot_meta guids pred_slot num_turns [0..<batch_size] predictions =
            Inr P'"
    and ent: "\<And>key.
        if \<exists>i \<in> set [0..<batch_size]. \<exists>t<min (num_turns ! i) (length (pred_slot ! i)).
             key = hd (guids ! i) @ ''-'' @ str_nat t
        then \<exists>i \<in> set [0..<batch_size]. \<exists>t<min (num_turns ! i) (length (pred_slot ! i)).
               key = hd (guids ! i) @ ''-'' @ str_nat t \<and>
               P' key = Some (decoded_state ontology slot_meta (pred_slot ! i ! t))
        else P' key = predictions key"
    by blast
  have K: "key \<in> ?K \<longleftrightarrow>
      (\<exists>i \<in> set [0..<batch_size]. \<exists>t<min (num_turns ! i) (length (pred_slot ! i)).
         key = hd (guids ! i) @ ''-'' @ str_nat t)" for key
  proof
    assume "key \<in> ?K"
    then obtain i t where it: "i < batch_size" "t < min (num_turns ! i) (length (pred_slot ! i))"
      "key = hd (guids ! i) @ ''-'' @ str_nat t"
      unfolding prediction_keys_def by blast
    from it(1) have "i \<in> set [0..<batch_size]" by simp
    with it(2,3) show "\<exists>i \<in> set [0..<batch_size].
        \<exists>t<min (num_turns ! i) (length (pred_slot ! i)). key = hd (guids ! i) @ ''-'' @ str_nat t"
      by blast
  next
    assume "\<exists>i \<in> set [0..<batch_size].
        \<exists>t<min (num_turns ! i) (length (pred_slot ! i)). key = hd (guids ! i) @ ''-'' @ str_nat t"
    then obtain i t where it: "i \<in> set [0..<batch_size]"
      "t < min (num_turns ! i) (length (pred_slot ! i))"
      "key = hd (guids ! i) @ ''-'' @ str_nat t"
      by blast
    from it(1) have "i < batch_size" by simp
    with it(2,3) show "key \<in> ?K"
      unfolding prediction_keys_def by blast
  qed
  have inK: "\<exists>i t. i < batch_size \<and> t < min (num_turns ! i) (length (pred_slot ! i)) \<and>
              key = hd (guids ! i) @ ''-'' @ str_nat t \<and>
              P' key = Some (decoded_state ontology slot_meta (pred_slot ! i ! t))"
    if "key \<in> ?K" for key
  proof -
    from that ent [of key] have
      "\<exists>i \<in> set [0..<batch_size]. \<exists>t<min (num_turns ! i) (length (pred_slot ! i)).
               key = hd (guids ! i) @ ''-'' @ str_nat t \<and>
               P' key = Some (decoded_state ontology slot_meta (pred_slot ! i ! t))"
      by (simp only: K if_True)
    then show ?thesis by auto
  qed
  have notK: "P' key = predictions key" if "key \<notin> ?K" for key
    using that ent [of key] by (simp only: K if_False)
  have "dom P' = dom predictions \<union> ?K"
  proof (rule set_eqI)
    fix key
    show "key \<in> dom P' \<longleftrightarrow> key \<in> dom predictions \<union> ?K"
    proof (cases "key \<in> ?K")
      case True
      with inK [OF True] show ?thesis by auto
    next
      case False
      with notK [OF False] show ?thesis by (simp add: dom_def)
    qed
  qed
  with run inK notK show ?thesis
    unfolding predict_batch_def by blast
qed

theorem predictions_output_witness:
  "\<exists>predictions'.
     predict_batch
       [''area'' \<mapsto> [''none'', ''east'', ''west''], ''food'' \<mapsto> [''none'', ''thai'']]
       [''area'', ''food''] [[''d'', ''d''], [''e'']]
       [[[0, 1], [2, 0]], [[0, 0], [1, 1]]] [2, 1] 2 Map.empty = Inr predictions' \<and>
     predictions' ''d-0'' = Some [''food-thai''] \<and>
     predictions' ''d-1'' = Some [''area-west''] \<and>
     predictions' ''e-0'' = Some [] \<and>
     predictions' ''e-1'' = None"
proof -
  let ?O = "[''area'' \<mapsto> [''none'', ''east'', ''west''], ''food'' \<mapsto> [''none'', ''thai'']]"
  let ?G = "[[''d'', ''d''], [''e'']]"
  let ?PS = "[[[0, 1], [2, 0]], [[0, 0], [1, 1]]] :: int list list list"
  have d: "decodable ?O [''area'', ''food''] pred"
    if "pred \<in> {[0, 1], [2, 0], [0, 0]}" for pred
    using that by (auto simp: decodable_def)
  have h: "\<forall>i<2. i < length ?G \<and> ?G ! i \<noteq> [] \<and> i < length ?PS \<and>
             i < length [2, 1 :: nat] \<and>
             (\<forall>pred \<in> set (take ([2, 1] ! i) (?PS ! i)). decodable ?O [''area'', ''food''] pred)"
    using d by (auto simp: less_Suc_eq numeral_2_eq_2)
  from predictions_output [OF h, of Map.empty] obtain predictions' where
    run: "predict_batch ?O [''area'', ''food''] ?G ?PS [2, 1] 2 Map.empty = Inr predictions'"
    by blast
  have ev: "predict_batch ?O [''area'', ''food''] ?G ?PS [2, 1] 2 Map.empty =
      Inr [''d-0'' \<mapsto> [''food-thai''], ''d-1'' \<mapsto> [''area-west''], ''e-0'' \<mapsto> []]"
    by (simp add: predict_batch_def py_index_def str_nat.simps upt_rec [of 0] upt_rec [of 1]
        upt_rec [of 2] numeral_2_eq_2)
  from run ev have "predictions' =
      [''d-0'' \<mapsto> [''food-thai''], ''d-1'' \<mapsto> [''area-west''], ''e-0'' \<mapsto> []]" by simp
  with run show ?thesis by simp
qed

end
